theory Spec2Isabelle
  imports Main "HOL-Library.Word" "HOL-Library.Multiset"
begin

section \<open>The memory pool of \<open>Custom_Memory_Pool_Alloc.cpp\<close>\<close>

text \<open>
  The program keeps two global arrays: \<open>queues[64]\<close>, the table of queue descriptors, and
  \<open>data[2048]\<close>, the arena. A descriptor points into the arena. The model keeps both in one
  record that every operation takes and returns. The arena is a store from offsets to bytes;
  the offsets below \<open>MEMORY_ALLOC_SIZE\<close> are the array.

  \<^item> \<open>unsigned int\<close> fields are 32-bit words, \<open>unsigned char\<close> is an 8-bit word.
  \<^item> A pointer into the arena is its offset from \<open>data\<close>: \<open>Some k\<close> is \<open>data + k\<close> and
    \<open>None\<close> is \<open>nullptr\<close>. A pointer plus an \<open>unsigned int\<close> is computed at pointer width, so the
    offset is a natural number and does not wrap at 32 bits.
  \<^item> A pointer difference is a signed 64-bit value; compared with an \<open>unsigned int\<close> the
    latter is converted to the signed type (LP64 and LLP64), so the comparison is one of integers.
  \<^item> A handle (\<open>byte_queue*\<close> into \<open>queues\<close>) is the index of its descriptor.
  \<^item> \<open>on_out_of_memory\<close> and \<open>on_illegal_operation\<close> raise a signal whose default action ends
    the process: they are the errors \<open>OutOfMemory\<close> and \<open>IllegalOperation\<close>.
  \<^item> An access outside \<open>data\<close>, outside \<open>queues\<close> or through \<open>nullptr\<close> has no defined
    behaviour in C++; the model stops there with the error \<open>MemoryFault\<close>.
\<close>

type_synonym byte = "8 word"
type_synonym uint = "32 word"
type_synonym ptr = "nat option"

definition DEFAULT_ALLOC_SIZE :: uint where
  "DEFAULT_ALLOC_SIZE = 32"

definition MAX_QUEUE_COUNT :: nat where
  "MAX_QUEUE_COUNT = 64"

definition MEMORY_ALLOC_SIZE :: nat where
  "MEMORY_ALLOC_SIZE = 2048"

record byte_queue =
  MemoryBlockPtr :: ptr
  AllocatedSize :: uint
  Size :: uint
  bIs_Active :: bool

record pool =
  queues :: "byte_queue list"
  data :: "nat \<Rightarrow> byte"

datatype fatal = OutOfMemory | IllegalOperation | MemoryFault

text \<open>The default member initialisers of \<open>byte_queue\<close> and the zero-initialised globals.\<close>

definition unused_queue :: byte_queue where
  "unused_queue = \<lparr>MemoryBlockPtr = None, AllocatedSize = 0, Size = 0, bIs_Active = False\<rparr>"

definition initial_pool :: pool where
  "initial_pool = \<lparr>queues = replicate MAX_QUEUE_COUNT unused_queue,
                   data = (\<lambda>i. 0)\<rparr>"

subsection \<open>Sorting the table copy\<close>

text \<open>\<open>nullptr\<close> is below every address of the arena.\<close>

fun ptr_less :: "ptr \<Rightarrow> ptr \<Rightarrow> bool" where
  "ptr_less None None = False"
| "ptr_less None (Some b) = True"
| "ptr_less (Some a) None = False"
| "ptr_less (Some a) (Some b) = (a < b)"

text \<open>The comparison lambda of \<open>reorganize_byte_queues\<close>: active before inactive, then by address.\<close>

definition queue_before :: "byte_queue \<Rightarrow> byte_queue \<Rightarrow> bool" where
  "queue_before q1 q2 =
     (if bIs_Active q1 \<noteq> bIs_Active q2 then bIs_Active q1 \<and> \<not> bIs_Active q2
      else ptr_less (MemoryBlockPtr q1) (MemoryBlockPtr q2))"

text \<open>
  \<open>std::sort\<close> leaves the relative order of elements that compare equivalent unspecified. The
  model sorts by insertion and keeps such elements in table order. Two descriptors are
  equivalent when both are inactive, or both are active at the same address.
\<close>

fun insert_queue :: "byte_queue \<Rightarrow> byte_queue list \<Rightarrow> byte_queue list" where
  "insert_queue q [] = [q]"
| "insert_queue q (x # xs) =
     (if queue_before x q then x # insert_queue q xs else q # x # xs)"

definition reorganize_byte_queues :: "byte_queue list \<Rightarrow> byte_queue list" where
  "reorganize_byte_queues entry = foldr insert_queue entry []"

subsection \<open>Queries on the table\<close>

text \<open>
  \<open>get_first_queue\<close> returns the address of an element of its local sorted copy. The model
  takes the value of that element, as the callers read it.
\<close>

definition get_first_queue :: "byte_queue list \<Rightarrow> byte_queue option" where
  "get_first_queue qs = find bIs_Active (reorganize_byte_queues qs)"

text \<open>
  The loop of \<open>get_next_queue\<close> walks \<open>queues\<close> in table order: the first descriptor with the
  address of the argument sets \<open>foundQueue\<close>, the first active descriptor after it is returned.
\<close>

fun next_queue_from :: "ptr \<Rightarrow> bool \<Rightarrow> nat \<Rightarrow> byte_queue list \<Rightarrow> nat option" where
  "next_queue_from p foundQueue i [] = None"
| "next_queue_from p foundQueue i (b # bs) =
     (if \<not> foundQueue \<and> MemoryBlockPtr b = p then next_queue_from p True (Suc i) bs
      else if foundQueue \<and> bIs_Active b then Some i
      else next_queue_from p foundQueue (Suc i) bs)"

definition get_next_queue :: "byte_queue list \<Rightarrow> byte_queue \<Rightarrow> nat option" where
  "get_next_queue qs queue = next_queue_from (MemoryBlockPtr queue) False 0 qs"

text \<open>\<open>std::find\<close> with \<open>operator==\<close> of \<open>byte_queue\<close> (all four fields); the length is \<open>end\<close>.\<close>

fun find_queue :: "byte_queue list \<Rightarrow> byte_queue \<Rightarrow> nat" where
  "find_queue [] t = 0"
| "find_queue (q # qs) t = (if q = t then 0 else Suc (find_queue qs t))"

text \<open>
  \<open>get_last_queue\<close> takes the last active element of the sorted copy and looks its value up in
  \<open>queues\<close>. Its test \<open>it != std::end(temp)\<close> compares a pointer into \<open>queues\<close> with the end of
  another array and never fails, so the result is \<open>&queues[it - queues]\<close> whenever an active
  element exists.
\<close>

definition get_last_queue :: "byte_queue list \<Rightarrow> nat option" where
  "get_last_queue qs =
     (case find bIs_Active (rev (reorganize_byte_queues qs)) of
        None \<Rightarrow> None
      | Some t \<Rightarrow> Some (find_queue qs t))"

text \<open>Dereferencing \<open>&queues[i]\<close>.\<close>

definition queue_at :: "byte_queue list \<Rightarrow> nat \<Rightarrow> fatal + byte_queue" where
  "queue_at qs i = (if i < length qs then Inr (qs ! i) else Inl MemoryFault)"

text \<open>The end of a queue's block, \<open>MemoryBlockPtr + AllocatedSize\<close>.\<close>

definition block_end :: "byte_queue \<Rightarrow> fatal + nat" where
  "block_end q =
     (case MemoryBlockPtr q of
        None \<Rightarrow> Inl MemoryFault
      | Some p \<Rightarrow> Inr (p + unat (AllocatedSize q)))"

subsection \<open>Moving bytes\<close>

text \<open>\<open>std::memmove\<close> copies as if through a temporary buffer: every byte comes from the old arena.\<close>

definition memmove :: "(nat \<Rightarrow> byte) \<Rightarrow> nat \<Rightarrow> nat \<Rightarrow> nat \<Rightarrow> nat \<Rightarrow> byte" where
  "memmove mem dst src n = (\<lambda>i. if dst \<le> i \<and> i < dst + n then mem (src + (i - dst)) else mem i)"

text \<open>The clearing loops, \<open>p[i] = 0\<close> for \<open>i < n\<close>.\<close>

definition zero_bytes :: "(nat \<Rightarrow> byte) \<Rightarrow> nat \<Rightarrow> nat \<Rightarrow> nat \<Rightarrow> byte" where
  "zero_bytes mem p n = (\<lambda>i. if p \<le> i \<and> i < p + n then 0 else mem i)"

definition relocate_bytes ::
  "(nat \<Rightarrow> byte) \<Rightarrow> ptr \<Rightarrow> ptr \<Rightarrow> uint \<Rightarrow> bool \<Rightarrow> fatal + (nat \<Rightarrow> byte)" where
  "relocate_bytes mem old_location location len clear =
     (if location = old_location then Inr mem
      else case old_location of
        None \<Rightarrow> Inl MemoryFault
      | Some src \<Rightarrow>
          (case location of
             None \<Rightarrow> Inl MemoryFault
           | Some dst \<Rightarrow>
               if src + unat len \<le> MEMORY_ALLOC_SIZE \<and> dst + unat len \<le> MEMORY_ALLOC_SIZE
               then Inr (if clear then zero_bytes (memmove mem dst src (unat len)) src (unat len)
                         else memmove mem dst src (unat len))
               else Inl MemoryFault))"

subsection \<open>Claiming a descriptor\<close>

text \<open>The first inactive descriptor, as the loop of \<open>add_byte_queue\<close> finds it.\<close>

fun first_inactive :: "nat \<Rightarrow> byte_queue list \<Rightarrow> nat option" where
  "first_inactive i [] = None"
| "first_inactive i (q # qs) = (if \<not> bIs_Active q then Some i else first_inactive (Suc i) qs)"

definition add_byte_queue :: "byte_queue list \<Rightarrow> ptr \<Rightarrow> uint \<Rightarrow> (nat \<times> byte_queue list) option" where
  "add_byte_queue qs p allocSize =
     (if p = None then None
      else case first_inactive 0 qs of
        None \<Rightarrow> None
      | Some i \<Rightarrow>
          Some (i, qs[i := \<lparr>MemoryBlockPtr = p, AllocatedSize = allocSize, Size = 0,
                            bIs_Active = True\<rparr>]))"

subsection \<open>Compaction\<close>

text \<open>
  Writing \<open>queues[it - queues].MemoryBlockPtr\<close> for the descriptor that \<open>std::find\<close> returned.
\<close>

definition set_queue_ptr :: "byte_queue list \<Rightarrow> nat \<Rightarrow> ptr \<Rightarrow> fatal + byte_queue list" where
  "set_queue_ptr qs it p =
     (if it < length qs then Inr (qs[it := (qs ! it)\<lparr>MemoryBlockPtr := p\<rparr>])
      else Inl MemoryFault)"

text \<open>
  The \<open>while\<close> loop of \<open>try_organize_memory\<close> over \<open>temp[1..63]\<close>; \<open>previous\<close> is the last active
  element seen, with its address already updated in \<open>temp\<close>. As in \<open>get_last_queue\<close>, the test
  \<open>it != std::end(temp)\<close> never fails, so every relocation writes the descriptor that
  \<open>std::find\<close> returned and sets \<open>memory_organized\<close>.
\<close>

fun organize_loop ::
  "byte_queue \<Rightarrow> byte_queue list \<Rightarrow> bool \<Rightarrow> pool \<Rightarrow> fatal + (bool \<times> pool)" where
  "organize_loop previous [] memory_organized s = Inr (memory_organized, s)"
| "organize_loop previous (nxt # rest) memory_organized s =
     (if bIs_Active nxt then
        (case block_end previous of
           Inl e \<Rightarrow> Inl e
         | Inr start \<Rightarrow>
             if Some start \<noteq> MemoryBlockPtr nxt then
               (case relocate_bytes (data s) (MemoryBlockPtr nxt) (Some start)
                       (AllocatedSize nxt) False of
                  Inl e \<Rightarrow> Inl e
                | Inr d \<Rightarrow>
                    (case set_queue_ptr (queues s) (find_queue (queues s) nxt) (Some start) of
                       Inl e \<Rightarrow> Inl e
                     | Inr qs \<Rightarrow>
                         organize_loop (nxt\<lparr>MemoryBlockPtr := Some start\<rparr>) rest True
                           (s\<lparr>queues := qs, data := d\<rparr>)))
             else organize_loop nxt rest memory_organized s)
      else organize_loop previous rest memory_organized s)"

definition try_organize_memory :: "pool \<Rightarrow> fatal + (bool \<times> pool)" where
  "try_organize_memory s =
     (case reorganize_byte_queues (queues s) of
        [] \<Rightarrow> Inl MemoryFault
      | previous # rest \<Rightarrow>
          if \<not> bIs_Active previous then Inr (False, s)
          else if MemoryBlockPtr previous \<noteq> Some 0 then
            (case relocate_bytes (data s) (MemoryBlockPtr previous) (Some 0) (Size previous) True of
               Inl e \<Rightarrow> Inl e
             | Inr d \<Rightarrow>
                 (case set_queue_ptr (queues s) (find_queue (queues s) previous) (Some 0) of
                    Inl e \<Rightarrow> Inl e
                  | Inr qs \<Rightarrow>
                      organize_loop (previous\<lparr>MemoryBlockPtr := Some 0\<rparr>) rest True
                        (s\<lparr>queues := qs, data := d\<rparr>)))
          else organize_loop previous rest False s)"

subsection \<open>Placement of a new queue\<close>

text \<open>
  \<open>last->MemoryBlockPtr + last->AllocatedSize\<close> for \<open>last = get_last_queue()\<close>; the source
  dereferences the result without a test.
\<close>

definition tail_start :: "byte_queue list \<Rightarrow> fatal + nat" where
  "tail_start qs =
     (case get_last_queue qs of
        None \<Rightarrow> Inl MemoryFault
      | Some i \<Rightarrow> (case queue_at qs i of Inl e \<Rightarrow> Inl e | Inr q \<Rightarrow> block_end q))"

text \<open>
  The \<open>for\<close> loop of \<open>first_free_memory\<close> over \<open>temp[1..63]\<close>: \<open>Some a\<close> is the address it
  returns, \<open>None\<close> means that the loop ended without a gap.
\<close>

fun gap_scan :: "byte_queue \<Rightarrow> byte_queue list \<Rightarrow> uint \<Rightarrow> fatal + nat option" where
  "gap_scan queue [] requested_size = Inr None"
| "gap_scan queue (t # ts) requested_size =
     (if \<not> bIs_Active t then Inr None
      else case MemoryBlockPtr t of
        None \<Rightarrow> Inl MemoryFault
      | Some tp \<Rightarrow>
          (case block_end queue of
             Inl e \<Rightarrow> Inl e
           | Inr qe \<Rightarrow>
               if int tp - int qe \<ge> int (unat requested_size) then Inr (Some qe)
               else gap_scan t ts requested_size))"

text \<open>The tail test that \<open>first_free_memory\<close> makes after a compaction.\<close>

definition tail_or_null :: "pool \<Rightarrow> uint \<Rightarrow> fatal + (ptr \<times> pool)" where
  "tail_or_null s requested_size =
     (case tail_start (queues s) of
        Inl e \<Rightarrow> Inl e
      | Inr mem_block_start \<Rightarrow>
          if mem_block_start + unat requested_size \<le> MEMORY_ALLOC_SIZE
          then Inr (Some mem_block_start, s)
          else Inr (None, s))"

definition organize_then_tail :: "pool \<Rightarrow> uint \<Rightarrow> fatal + (ptr \<times> pool)" where
  "organize_then_tail s requested_size =
     (case try_organize_memory s of
        Inl e \<Rightarrow> Inl e
      | Inr (organized, s1) \<Rightarrow>
          if \<not> organized then Inr (None, s1) else tail_or_null s1 requested_size)"

definition first_free_memory :: "pool \<Rightarrow> uint \<Rightarrow> fatal + (ptr \<times> pool)" where
  "first_free_memory s requested_size =
     (case get_first_queue (queues s) of
        None \<Rightarrow> Inr (Some 0, s)
      | Some queue \<Rightarrow>
          if Some 0 \<noteq> MemoryBlockPtr queue then
            (case MemoryBlockPtr queue of
               None \<Rightarrow> Inl MemoryFault
             | Some qp \<Rightarrow>
                 if unat requested_size \<le> qp then Inr (Some 0, s)
                 else organize_then_tail s requested_size)
          else
            (case get_next_queue (queues s) queue of
               None \<Rightarrow>
                 (case block_end queue of Inl e \<Rightarrow> Inl e | Inr a \<Rightarrow> Inr (Some a, s))
             | Some node \<Rightarrow>
                 (case gap_scan queue (tl (reorganize_byte_queues (queues s))) requested_size of
                    Inl e \<Rightarrow> Inl e
                  | Inr (Some a) \<Rightarrow> Inr (Some a, s)
                  | Inr None \<Rightarrow>
                      (case tail_start (queues s) of
                         Inl e \<Rightarrow> Inl e
                       | Inr ptr_to_first \<Rightarrow>
                           if ptr_to_first + unat requested_size \<le> MEMORY_ALLOC_SIZE
                           then Inr (Some ptr_to_first, s)
                           else organize_then_tail s requested_size))))"

subsection \<open>Placement of a growing queue\<close>

text \<open>
  The second half of \<open>get_available_memory_start\<close>: the queue goes behind the last one, after
  one compaction when the end of the arena is too close.
\<close>

definition relocate_to_tail :: "pool \<Rightarrow> uint \<Rightarrow> fatal + (ptr \<times> pool)" where
  "relocate_to_tail s sz =
     (case get_last_queue (queues s) of
        None \<Rightarrow> Inr (Some 0, s)
      | Some l \<Rightarrow>
          (case queue_at (queues s) l of
             Inl e \<Rightarrow> Inl e
           | Inr node \<Rightarrow>
               (case block_end node of
                  Inl e \<Rightarrow> Inl e
                | Inr memory_start \<Rightarrow>
                    if memory_start + unat sz > MEMORY_ALLOC_SIZE then
                      (case try_organize_memory s of
                         Inl e \<Rightarrow> Inl e
                       | Inr (organized, s1) \<Rightarrow>
                           if \<not> organized then Inl OutOfMemory
                           else
                             (case tail_start (queues s1) of
                                Inl e \<Rightarrow> Inl e
                              | Inr memory_start1 \<Rightarrow>
                                  if memory_start1 + unat sz > MEMORY_ALLOC_SIZE
                                  then Inl OutOfMemory
                                  else Inr (Some memory_start1, s1)))
                    else Inr (Some memory_start, s))))"

definition get_available_memory_start :: "pool \<Rightarrow> nat \<Rightarrow> uint \<Rightarrow> fatal + (ptr \<times> pool)" where
  "get_available_memory_start s h sz =
     (case queue_at (queues s) h of
        Inl e \<Rightarrow> Inl e
      | Inr queue \<Rightarrow>
          (case get_next_queue (queues s) queue of
             None \<Rightarrow> Inr (Some 0, s)
           | Some n \<Rightarrow>
               (case queue_at (queues s) n of
                  Inl e \<Rightarrow> Inl e
                | Inr node \<Rightarrow>
                    (case MemoryBlockPtr node of
                       None \<Rightarrow> Inl MemoryFault
                     | Some np \<Rightarrow>
                         (case MemoryBlockPtr queue of
                            None \<Rightarrow> Inl MemoryFault
                          | Some qp \<Rightarrow>
                              if int np - int qp \<ge> int (unat sz)
                              then Inr (MemoryBlockPtr queue, s)
                              else relocate_to_tail s sz)))))"

subsection \<open>The public operations\<close>

definition create_queue :: "pool \<Rightarrow> fatal + (nat \<times> pool)" where
  "create_queue s =
     (case first_free_memory s DEFAULT_ALLOC_SIZE of
        Inl e \<Rightarrow> Inl e
      | Inr (start, s1) \<Rightarrow>
          if start = None then Inl OutOfMemory
          else
            (case add_byte_queue (queues s1) start DEFAULT_ALLOC_SIZE of
               None \<Rightarrow> Inl OutOfMemory
             | Some (i, qs) \<Rightarrow>
                 Inr (i, s1\<lparr>queues :=
                        qs[i := (qs ! i)\<lparr>MemoryBlockPtr := start,
                                         AllocatedSize := DEFAULT_ALLOC_SIZE,
                                         Size := 0, bIs_Active := True\<rparr>]\<rparr>)))"

definition destroy_queue :: "pool \<Rightarrow> nat \<Rightarrow> bool \<Rightarrow> fatal + pool" where
  "destroy_queue s h clear =
     (case queue_at (queues s) h of
        Inl e \<Rightarrow> Inl e
      | Inr queue \<Rightarrow>
          (let gone = (queues s)[h := queue\<lparr>MemoryBlockPtr := None, AllocatedSize := 0,
                                          Size := 0, bIs_Active := False\<rparr>]
           in if clear \<and> AllocatedSize queue \<noteq> 0 then
                (case MemoryBlockPtr queue of
                   None \<Rightarrow> Inl MemoryFault
                 | Some p \<Rightarrow>
                     if p + unat (AllocatedSize queue) \<le> MEMORY_ALLOC_SIZE
                     then Inr (s\<lparr>queues := gone,
                                data := zero_bytes (data s) p (unat (AllocatedSize queue))\<rparr>)
                     else Inl MemoryFault)
              else Inr (s\<lparr>queues := gone\<rparr>)))"

text \<open>A store through \<open>MemoryBlockPtr[i]\<close>.\<close>

definition write_byte ::
  "(nat \<Rightarrow> byte) \<Rightarrow> ptr \<Rightarrow> nat \<Rightarrow> byte \<Rightarrow> fatal + (nat \<Rightarrow> byte)" where
  "write_byte mem p i v =
     (case p of
        None \<Rightarrow> Inl MemoryFault
      | Some a \<Rightarrow>
          if a + i < MEMORY_ALLOC_SIZE then Inr (mem(a + i := v)) else Inl MemoryFault)"

text \<open>
  The body of \<open>if (queue->Size + 1 > queue->AllocatedSize)\<close> in \<open>enqueue_byte\<close>: the
  capacity grows in the descriptor first, then the placement is asked for, then the bytes move
  from the address the queue had on entry.
\<close>

definition grow_queue :: "pool \<Rightarrow> nat \<Rightarrow> byte_queue \<Rightarrow> fatal + pool" where
  "grow_queue s h queue =
     (let lastPosition = MemoryBlockPtr queue;
          lastSize = AllocatedSize queue;
          grown = queue\<lparr>AllocatedSize := AllocatedSize queue + DEFAULT_ALLOC_SIZE\<rparr>
      in case get_available_memory_start (s\<lparr>queues := (queues s)[h := grown]\<rparr>) h
                (AllocatedSize grown) of
           Inl e \<Rightarrow> Inl e
         | Inr (p, s1) \<Rightarrow>
             (case relocate_bytes (data s1) lastPosition p lastSize True of
                Inl e \<Rightarrow> Inl e
              | Inr d \<Rightarrow>
                  Inr (s1\<lparr>queues := (queues s1)[h := (queues s1 ! h)\<lparr>MemoryBlockPtr := p\<rparr>],
                          data := d\<rparr>)))"

definition enqueue_byte :: "pool \<Rightarrow> nat \<Rightarrow> byte \<Rightarrow> fatal + pool" where
  "enqueue_byte s h b =
     (case queue_at (queues s) h of
        Inl e \<Rightarrow> Inl e
      | Inr queue \<Rightarrow>
          (case (if Size queue + 1 > AllocatedSize queue then grow_queue s h queue else Inr s) of
             Inl e \<Rightarrow> Inl e
           | Inr s2 \<Rightarrow>
               (let q = queues s2 ! h
                in case write_byte (data s2) (MemoryBlockPtr q) (unat (Size q)) b of
                     Inl e \<Rightarrow> Inl e
                   | Inr d \<Rightarrow>
                       Inr (s2\<lparr>queues := (queues s2)[h := q\<lparr>Size := Size q + 1\<rparr>],
                               data := d\<rparr>))))"

text \<open>
  The shifting loop of \<open>dequeue_byte\<close>, \<open>MemoryBlockPtr[i] = MemoryBlockPtr[i + 1]\<close> for the
  indices \<open>i\<close> of the list, at the arena offset \<open>p\<close>.
\<close>

fun shift_left :: "(nat \<Rightarrow> byte) \<Rightarrow> nat \<Rightarrow> nat list \<Rightarrow> fatal + (nat \<Rightarrow> byte)" where
  "shift_left mem p [] = Inr mem"
| "shift_left mem p (i # is) =
     (if p + i + 1 < MEMORY_ALLOC_SIZE then shift_left (mem(p + i := mem (p + i + 1))) p is
      else Inl MemoryFault)"

definition dequeue_byte :: "pool \<Rightarrow> nat \<Rightarrow> fatal + (byte \<times> pool)" where
  "dequeue_byte s h =
     (case queue_at (queues s) h of
        Inl e \<Rightarrow> Inl e
      | Inr queue \<Rightarrow>
          if Size queue = 0 then Inl IllegalOperation
          else
            (case MemoryBlockPtr queue of
               None \<Rightarrow> Inl MemoryFault
             | Some p \<Rightarrow>
                 if \<not> p < MEMORY_ALLOC_SIZE then Inl MemoryFault
                 else
                   (let removed_byte = data s p
                    in case shift_left (data s) p [0..<unat (Size queue)] of
                         Inl e \<Rightarrow> Inl e
                       | Inr d \<Rightarrow>
                           (let sz = Size queue - 1;
                                alloc = (if sz \<le> AllocatedSize queue - DEFAULT_ALLOC_SIZE
                                         then AllocatedSize queue - DEFAULT_ALLOC_SIZE
                                         else AllocatedSize queue)
                            in case write_byte d (Some p) (unat sz) 0 of
                                 Inl e \<Rightarrow> Inl e
                               | Inr d1 \<Rightarrow>
                                   Inr (removed_byte,
                                        s\<lparr>queues := (queues s)[h := queue\<lparr>AllocatedSize := alloc,
                                                                          Size := sz\<rparr>],
                                          data := d1\<rparr>)))))"

subsection \<open>Sequences of operations\<close>

text \<open>
  A caller's program is a list of calls. Handles are table indices; \<open>Organize\<close> is a call of
  \<open>try_organize_memory\<close>. A run stops at the first error.
\<close>

datatype operation =
  Create
| Destroy nat bool
| Enqueue nat byte
| Dequeue nat
| Organize

datatype outcome =
  Handle nat
| Done
| Byte byte
| Organized bool

fun step :: "pool \<Rightarrow> operation \<Rightarrow> fatal + (outcome \<times> pool)" where
  "step s Create =
     (case create_queue s of Inl e \<Rightarrow> Inl e | Inr (h, s1) \<Rightarrow> Inr (Handle h, s1))"
| "step s (Destroy h clear) =
     (case destroy_queue s h clear of Inl e \<Rightarrow> Inl e | Inr s1 \<Rightarrow> Inr (Done, s1))"
| "step s (Enqueue h b) =
     (case enqueue_byte s h b of Inl e \<Rightarrow> Inl e | Inr s1 \<Rightarrow> Inr (Done, s1))"
| "step s (Dequeue h) =
     (case dequeue_byte s h of Inl e \<Rightarrow> Inl e | Inr (b, s1) \<Rightarrow> Inr (Byte b, s1))"
| "step s Organize =
     (case try_organize_memory s of Inl e \<Rightarrow> Inl e | Inr (b, s1) \<Rightarrow> Inr (Organized b, s1))"

fun run :: "pool \<Rightarrow> operation list \<Rightarrow> fatal + (outcome list \<times> pool)" where
  "run s [] = Inr ([], s)"
| "run s (x # xs) =
     (case step s x of
        Inl e \<Rightarrow> Inl e
      | Inr (r, s1) \<Rightarrow>
          (case run s1 xs of Inl e \<Rightarrow> Inl e | Inr (rs, s2) \<Rightarrow> Inr (r # rs, s2)))"

section \<open>Properties\<close>

subsection \<open>What the claims speak about\<close>

text \<open>The four fields of a descriptor, for printing a table.\<close>

definition descriptor :: "byte_queue \<Rightarrow> ptr \<times> uint \<times> uint \<times> bool" where
  "descriptor q = (MemoryBlockPtr q, AllocatedSize q, Size q, bIs_Active q)"

text \<open>
  Two active descriptors overlap when their blocks
  \<open>[MemoryBlockPtr, MemoryBlockPtr + AllocatedSize)\<close> share a byte.
\<close>

definition overlapping :: "byte_queue \<Rightarrow> byte_queue \<Rightarrow> bool" where
  "overlapping q1 q2 =
     (case MemoryBlockPtr q1 of
        None \<Rightarrow> False
      | Some a \<Rightarrow>
          (case MemoryBlockPtr q2 of
             None \<Rightarrow> False
           | Some b \<Rightarrow>
               bIs_Active q1 \<and> bIs_Active q2 \<and>
               a < b + unat (AllocatedSize q2) \<and> b < a + unat (AllocatedSize q1)))"

text \<open>The logical content of a queue: the first \<open>Size\<close> bytes at its address.\<close>

definition queue_bytes :: "pool \<Rightarrow> nat \<Rightarrow> byte list" where
  "queue_bytes s h =
     (case MemoryBlockPtr (queues s ! h) of
        None \<Rightarrow> []
      | Some p \<Rightarrow> map (\<lambda>i. data s (p + i)) [0..<unat (Size (queues s ! h))])"

text \<open>
  The offsets from \<open>MemoryBlockPtr\<close> that \<open>dequeue_byte\<close> touches for a non-empty queue, in
  program order: the read of \<open>[0]\<close>, for every \<open>i < Size\<close> the read of \<open>[i + 1]\<close> and the
  write of \<open>[i]\<close>, and the write of \<open>[Size - 1]\<close>.
\<close>

definition dequeue_offsets :: "byte_queue \<Rightarrow> nat list" where
  "dequeue_offsets queue =
     0 # concat (map (\<lambda>i. [i + 1, i]) [0..<unat (Size queue)]) @ [unat (Size queue - 1)]"

text \<open>
  The bracket of the growth and shrink policy: the capacity is a multiple of the growth unit, at
  least the size and at most one unit above it.
\<close>

definition bracket :: "uint \<Rightarrow> uint \<Rightarrow> bool" where
  "bracket a n \<longleftrightarrow>
     unat DEFAULT_ALLOC_SIZE dvd unat a \<and> unat n \<le> unat a \<and>
     unat a \<le> unat n + unat DEFAULT_ALLOC_SIZE"

definition bracketed :: "byte_queue \<Rightarrow> bool" where
  "bracketed q = bracket (AllocatedSize q) (Size q)"

definition slot_ok :: "byte_queue \<Rightarrow> bool" where
  "slot_ok q \<longleftrightarrow> (bIs_Active q \<longrightarrow> bracketed q)"

text \<open>What compaction and placement leave alone in a descriptor.\<close>

definition shape :: "byte_queue \<Rightarrow> uint \<times> uint \<times> bool" where
  "shape q = (AllocatedSize q, Size q, bIs_Active q)"

definition ok_shape :: "uint \<times> uint \<times> bool \<Rightarrow> bool" where
  "ok_shape sh = (case sh of (a, n, act) \<Rightarrow> act \<longrightarrow> bracket a n)"

text \<open>
  The table after \<open>k\<close> calls of \<open>create_queue\<close> on the initial pool: \<open>k\<close> empty queues of one
  growth unit each, side by side from the start of the arena.
\<close>

definition block_at :: "nat \<Rightarrow> byte_queue" where
  "block_at i = \<lparr>MemoryBlockPtr = Some (32 * i), AllocatedSize = 32, Size = 0, bIs_Active = True\<rparr>"

definition created :: "nat \<Rightarrow> (nat \<Rightarrow> byte) \<Rightarrow> pool" where
  "created k d = \<lparr>queues = map block_at [0..<k] @ replicate (64 - k) unused_queue, data = d\<rparr>"

text \<open>The pool after 64 creations and \<open>n\<close> bytes of value 7 in the last queue.\<close>

definition last_filled :: "nat \<Rightarrow> pool" where
  "last_filled n =
     \<lparr>queues = map block_at [0..<63] @
                 [\<lparr>MemoryBlockPtr = Some 2016, AllocatedSize = 32, Size = of_nat n,
                   bIs_Active = True\<rparr>],
      data = (\<lambda>i. if 2016 \<le> i \<and> i < 2016 + n then 7 else 0)\<rparr>"

text \<open>
  What compaction aims at: the active descriptors of a sorted table, each moved to the end of
  the active one before it, the first to offset \<open>e\<close>.
\<close>

fun pack :: "nat \<Rightarrow> byte_queue list \<Rightarrow> byte_queue list" where
  "pack e [] = []"
| "pack e (q # qs) =
     (if bIs_Active q then q\<lparr>MemoryBlockPtr := Some e\<rparr> # pack (e + unat (AllocatedSize q)) qs
      else q # pack e qs)"

text \<open>The address of a descriptor as a number, \<open>nullptr\<close> lowest.\<close>

definition ptr_key :: "byte_queue \<Rightarrow> nat" where
  "ptr_key q = (case MemoryBlockPtr q of None \<Rightarrow> 0 | Some a \<Rightarrow> Suc a)"

subsection \<open>The capacity bracket is an invariant\<close>

lemma shape_ptr_update [simp]: "shape (q\<lparr>MemoryBlockPtr := p\<rparr>) = shape q"
  by (simp add: shape_def)

lemma slot_ok_shape: "shape q = shape r \<Longrightarrow> slot_ok q = slot_ok r"
  by (simp add: shape_def slot_ok_def bracketed_def)

lemma slot_ok_ok_shape: "slot_ok q = ok_shape (shape q)"
  by (simp add: shape_def slot_ok_def bracketed_def ok_shape_def)

lemma all_slot_ok_shapes: "list_all slot_ok qs = list_all ok_shape (map shape qs)"
  by (simp add: list_all_iff slot_ok_ok_shape)

lemma list_all_update: "list_all P xs \<Longrightarrow> P x \<Longrightarrow> list_all P (xs[i := x])"
  using set_update_subset_insert [of xs i x] by (auto simp: list_all_iff)

lemma slot_ok_update_shapes:
  assumes "list_all slot_ok qs" and "map shape qs' = (map shape qs)[h := sh]" and "ok_shape sh"
  shows "list_all slot_ok qs'"
  using assms by (simp add: all_slot_ok_shapes list_all_update)

lemma bracket_create: "bracket DEFAULT_ALLOC_SIZE 0"
  by (simp add: bracket_def)

lemma bracket_grow:
  assumes "bracket a n" and "n + 1 > a" and "unat n < MEMORY_ALLOC_SIZE"
  shows "bracket (a + DEFAULT_ALLOC_SIZE) (n + 1)"
proof -
  have n1: "unat (n + 1) = unat n + 1"
    using assms(3) by (simp add: MEMORY_ALLOC_SIZE_def unat_add_lem [THEN iffD1])
  have "unat a < unat n + 1"
    using assms(2) n1 by (simp add: word_less_nat_alt)
  then have eq: "unat a = unat n"
    using assms(1) by (simp add: bracket_def)
  have "unat (a + DEFAULT_ALLOC_SIZE) = unat a + unat DEFAULT_ALLOC_SIZE"
    using eq assms(3)
    by (simp add: MEMORY_ALLOC_SIZE_def DEFAULT_ALLOC_SIZE_def unat_add_lem [THEN iffD1])
  then show ?thesis
    using assms(1) n1 eq by (simp add: bracket_def DEFAULT_ALLOC_SIZE_def)
qed

lemma bracket_append:
  assumes "bracket a n" and "\<not> n + 1 > a" and "unat n < MEMORY_ALLOC_SIZE"
  shows "bracket a (n + 1)"
proof -
  have n1: "unat (n + 1) = unat n + 1"
    using assms(3) by (simp add: MEMORY_ALLOC_SIZE_def unat_add_lem [THEN iffD1])
  have "unat n + 1 \<le> unat a"
    using assms(2) n1 by (simp add: word_less_nat_alt)
  then show ?thesis
    using assms(1) n1 by (simp add: bracket_def)
qed

lemma bracket_dequeue:
  assumes "bracket a n" and "n \<noteq> 0"
  shows "bracket (if n - 1 \<le> a - DEFAULT_ALLOC_SIZE then a - DEFAULT_ALLOC_SIZE else a) (n - 1)"
proof -
  have pos: "0 < unat n"
    using assms(2) by (simp add: unat_gt_0)
  have n1: "unat (n - 1) = unat n - 1"
    using assms(2) by (simp add: unat_minus_one)
  have "0 < unat a"
    using assms(1) pos by (simp add: bracket_def)
  moreover have dv: "unat DEFAULT_ALLOC_SIZE dvd unat a"
    using assms(1) by (simp add: bracket_def)
  ultimately have big: "unat DEFAULT_ALLOC_SIZE \<le> unat a"
    by (rule dvd_imp_le [rotated])
  then have a1: "unat (a - DEFAULT_ALLOC_SIZE) = unat a - unat DEFAULT_ALLOC_SIZE"
    by (simp add: unat_sub word_le_nat_alt)
  have dv': "unat DEFAULT_ALLOC_SIZE dvd unat a - unat DEFAULT_ALLOC_SIZE"
    using dv big by (simp add: dvd_diff_nat)
  show ?thesis
    using assms(1) pos n1 a1 big dv'
    by (auto simp: bracket_def word_le_nat_alt DEFAULT_ALLOC_SIZE_def)
qed

lemma shapes_slot_ok:
  assumes "map shape qs' = map shape qs"
  shows "list_all slot_ok qs' = list_all slot_ok qs"
proof -
  have len: "length qs' = length qs"
    using assms by (metis length_map)
  have "\<And>i. i < length qs \<Longrightarrow> slot_ok (qs' ! i) = slot_ok (qs ! i)"
  proof -
    fix i assume i: "i < length qs"
    have "map shape qs' ! i = map shape qs ! i" using assms by simp
    then have "shape (qs' ! i) = shape (qs ! i)" using i len by simp
    then show "slot_ok (qs' ! i) = slot_ok (qs ! i)" by (rule slot_ok_shape)
  qed
  then show ?thesis using len by (simp add: list_all_length)
qed

lemma map_shape_update:
  assumes "shape x = shape (qs ! i)"
  shows "map shape (qs[i := x]) = map shape qs"
proof -
  have "map shape (qs[i := x]) = (map shape qs)[i := shape (qs ! i)]"
    using assms by (simp add: map_update)
  also have "\<dots> = map shape (qs[i := qs ! i])"
    by (simp only: map_update)
  finally show ?thesis by simp
qed

lemma set_queue_ptr_shape:
  "set_queue_ptr qs it p = Inr qs' \<Longrightarrow> map shape qs' = map shape qs"
  by (auto simp: set_queue_ptr_def map_shape_update split: if_splits)

lemma organize_loop_shape:
  "organize_loop previous temp b s = Inr (b', s') \<Longrightarrow> map shape (queues s') = map shape (queues s)"
proof (induction temp arbitrary: previous b s)
  case Nil
  then show ?case by simp
next
  case (Cons nxt rest)
  show ?case
  proof (cases "bIs_Active nxt")
    case False
    with Cons show ?thesis by simp
  next
    case True
    note act = this
    show ?thesis
    proof (cases "block_end previous")
      case (Inl e)
      with Cons.prems act show ?thesis by simp
    next
      case (Inr start)
      show ?thesis
      proof (cases "Some start = MemoryBlockPtr nxt")
        case True
        with Cons act Inr show ?thesis by simp
      next
        case False
        from Cons.prems act Inr False obtain d qs where
          qs: "set_queue_ptr (queues s) (find_queue (queues s) nxt) (Some start) = Inr qs"
          and rec: "organize_loop (nxt\<lparr>MemoryBlockPtr := Some start\<rparr>) rest True
                      (s\<lparr>queues := qs, data := d\<rparr>) = Inr (b', s')"
          by (auto split: sum.splits)
        from Cons.IH [OF rec] have "map shape (queues s') = map shape qs" by simp
        with set_queue_ptr_shape [OF qs] show ?thesis by simp
      qed
    qed
  qed
qed

lemma try_organize_memory_shape:
  "try_organize_memory s = Inr (b, s') \<Longrightarrow> map shape (queues s') = map shape (queues s)"
  unfolding try_organize_memory_def
  by (auto split: list.splits if_splits sum.splits
           dest!: organize_loop_shape set_queue_ptr_shape)


lemma tail_or_null_shape:
  "tail_or_null s r = Inr (p, s') \<Longrightarrow> s' = s"
  by (auto simp: tail_or_null_def split: sum.splits if_splits)

lemma organize_then_tail_shape:
  "organize_then_tail s r = Inr (p, s') \<Longrightarrow> map shape (queues s') = map shape (queues s)"
  by (auto simp: organize_then_tail_def split: sum.splits if_splits
           dest!: try_organize_memory_shape tail_or_null_shape)

lemma first_free_memory_shape:
  "first_free_memory s r = Inr (p, s') \<Longrightarrow> map shape (queues s') = map shape (queues s)"
  by (auto simp: first_free_memory_def split: option.splits sum.splits if_splits
           dest!: organize_then_tail_shape)

lemma relocate_to_tail_shape:
  "relocate_to_tail s r = Inr (p, s') \<Longrightarrow> map shape (queues s') = map shape (queues s)"
  by (auto simp: relocate_to_tail_def split: option.splits sum.splits if_splits
           dest!: try_organize_memory_shape)

lemma get_available_memory_start_shape:
  "get_available_memory_start s h r = Inr (p, s') \<Longrightarrow>
     map shape (queues s') = map shape (queues s)"
  by (auto simp: get_available_memory_start_def split: option.splits sum.splits if_splits
           dest!: relocate_to_tail_shape)

lemma grow_queue_shape:
  assumes "grow_queue s h queue = Inr s2"
  shows "map shape (queues s2) =
           (map shape (queues s))[h := (AllocatedSize queue + DEFAULT_ALLOC_SIZE, Size queue,
                                        bIs_Active queue)]"
proof -
  let ?grown = "queue\<lparr>AllocatedSize := AllocatedSize queue + DEFAULT_ALLOC_SIZE\<rparr>"
  from assms obtain p s1 d where
    g: "get_available_memory_start (s\<lparr>queues := (queues s)[h := ?grown]\<rparr>) h
          (AllocatedSize ?grown) = Inr (p, s1)"
    and s2: "s2 = s1\<lparr>queues := (queues s1)[h := (queues s1 ! h)\<lparr>MemoryBlockPtr := p\<rparr>],
                     data := d\<rparr>"
    by (auto simp: grow_queue_def Let_def split: sum.splits)
  have "map shape (queues s2) = map shape (queues s1)"
    using s2 by (simp add: map_shape_update)
  also have "\<dots> = map shape ((queues s)[h := ?grown])"
    using get_available_memory_start_shape [OF g] by simp
  also have "\<dots> = (map shape (queues s))[h := shape ?grown]"
    by (simp add: map_update)
  finally show ?thesis by (simp add: shape_def)
qed


lemma write_byte_bound:
  "write_byte mem p i v = Inr d \<Longrightarrow> i < MEMORY_ALLOC_SIZE"
  by (auto simp: write_byte_def split: option.splits if_splits)

lemma create_queue_slot_ok:
  assumes "create_queue s = Inr (h, s')" and "list_all slot_ok (queues s)"
  shows "list_all slot_ok (queues s')"
proof -
  from assms(1) obtain start s1 i qs where
    f: "first_free_memory s DEFAULT_ALLOC_SIZE = Inr (start, s1)"
    and a: "add_byte_queue (queues s1) start DEFAULT_ALLOC_SIZE = Some (i, qs)"
    and s': "s' = s1\<lparr>queues := qs[i := (qs ! i)\<lparr>MemoryBlockPtr := start,
                 AllocatedSize := DEFAULT_ALLOC_SIZE, Size := 0, bIs_Active := True\<rparr>]\<rparr>"
    by (auto simp: create_queue_def split: sum.splits if_splits option.splits)
  have ok1: "list_all slot_ok (queues s1)"
    using shapes_slot_ok [OF first_free_memory_shape [OF f]] assms(2) by simp
  have "list_all slot_ok qs"
    using a ok1
    by (auto simp: add_byte_queue_def slot_ok_def bracketed_def bracket_create
             split: if_splits option.splits intro!: list_all_update)
  then show ?thesis
    using s' by (auto simp: slot_ok_def bracketed_def bracket_create intro!: list_all_update)
qed

lemma destroy_queue_slot_ok:
  assumes "destroy_queue s h clear = Inr s'" and "list_all slot_ok (queues s)"
  shows "list_all slot_ok (queues s')"
  using assms
  by (auto simp: destroy_queue_def queue_at_def Let_def slot_ok_def
           split: if_splits option.splits intro!: list_all_update)

lemma try_organize_memory_slot_ok:
  assumes "try_organize_memory s = Inr (b, s')" and "list_all slot_ok (queues s)"
  shows "list_all slot_ok (queues s')"
  using shapes_slot_ok [OF try_organize_memory_shape [OF assms(1)]] assms(2) by simp

lemma dequeue_byte_slot_ok:
  assumes "dequeue_byte s h = Inr (b, s')" and "list_all slot_ok (queues s)"
  shows "list_all slot_ok (queues s')"
proof -
  let ?q = "queues s ! h"
  let ?a = "if Size ?q - 1 \<le> AllocatedSize ?q - DEFAULT_ALLOC_SIZE
            then AllocatedSize ?q - DEFAULT_ALLOC_SIZE else AllocatedSize ?q"
  from assms(1) have h: "h < length (queues s)" and nz: "Size ?q \<noteq> 0"
    and s': "queues s' = (queues s)[h := ?q\<lparr>AllocatedSize := ?a, Size := Size ?q - 1\<rparr>]"
    by (auto simp: dequeue_byte_def queue_at_def Let_def
             split: if_splits option.splits sum.splits)
  have "slot_ok ?q"
    using assms(2) h by (simp add: list_all_length)
  then have "slot_ok (?q\<lparr>AllocatedSize := ?a, Size := Size ?q - 1\<rparr>)"
    using bracket_dequeue [OF _ nz, of "AllocatedSize ?q"]
    by (simp add: slot_ok_def bracketed_def)
  then show ?thesis
    using assms(2) unfolding s' by (rule list_all_update [rotated])
qed

lemma enqueue_byte_slot_ok:
  assumes "enqueue_byte s h b = Inr s'" and "list_all slot_ok (queues s)"
  shows "list_all slot_ok (queues s')"
proof -
  let ?q = "queues s ! h"
  from assms(1) have h: "h < length (queues s)"
    by (auto simp: enqueue_byte_def queue_at_def split: if_splits)
  have ok: "slot_ok ?q"
    using assms(2) h by (simp add: list_all_length)
  from assms(1) h obtain s2 d where
    s2: "(if Size ?q + 1 > AllocatedSize ?q then grow_queue s h ?q else Inr s) = Inr s2"
    and w: "write_byte (data s2) (MemoryBlockPtr (queues s2 ! h)) (unat (Size (queues s2 ! h))) b
              = Inr d"
    and s': "queues s' = (queues s2)[h := (queues s2 ! h)\<lparr>Size := Size (queues s2 ! h) + 1\<rparr>]"
    by (auto simp: enqueue_byte_def queue_at_def Let_def split: sum.splits)
  let ?q2 = "queues s2 ! h"
  have bound: "unat (Size ?q2) < MEMORY_ALLOC_SIZE"
    using w by (rule write_byte_bound)
  show ?thesis
  proof (cases "Size ?q + 1 > AllocatedSize ?q")
    case False
    then have "s2 = s" using s2 by simp
    then have "queues s' = (queues s)[h := ?q\<lparr>Size := Size ?q + 1\<rparr>]"
      and b: "unat (Size ?q) < MEMORY_ALLOC_SIZE"
      using s' bound by simp_all
    moreover have "slot_ok (?q\<lparr>Size := Size ?q + 1\<rparr>)"
      using ok bracket_append [OF _ False b] by (simp add: slot_ok_def bracketed_def)
    ultimately show ?thesis
      using assms(2) by (simp add: list_all_update)
  next
    case True
    then have g: "grow_queue s h ?q = Inr s2" using s2 by simp
    note sh = grow_queue_shape [OF g]
    have len: "length (queues s2) = length (queues s)"
      using sh by (metis length_list_update length_map)
    have "shape ?q2 = map shape (queues s2) ! h"
      using h len by simp
    then have q2: "shape ?q2 = (AllocatedSize ?q + DEFAULT_ALLOC_SIZE, Size ?q, bIs_Active ?q)"
      using sh h by simp
    then have b: "unat (Size ?q) < MEMORY_ALLOC_SIZE"
      using bound by (simp add: shape_def)
    have "map shape (queues s') =
            (map shape (queues s))[h := (AllocatedSize ?q + DEFAULT_ALLOC_SIZE, Size ?q + 1,
                                         bIs_Active ?q)]"
      using q2 sh unfolding s' by (simp add: map_update shape_def)
    moreover have "ok_shape (AllocatedSize ?q + DEFAULT_ALLOC_SIZE, Size ?q + 1, bIs_Active ?q)"
      using ok bracket_grow [OF _ True b] by (simp add: ok_shape_def slot_ok_def bracketed_def)
    ultimately show ?thesis
      using assms(2) by (rule slot_ok_update_shapes [rotated])
  qed
qed

lemma step_slot_ok:
  assumes "step s x = Inr (r, s')" and "list_all slot_ok (queues s)"
  shows "list_all slot_ok (queues s')"
  using assms
  by (cases x)
     (auto split: sum.splits
           dest: create_queue_slot_ok destroy_queue_slot_ok enqueue_byte_slot_ok
                 dequeue_byte_slot_ok try_organize_memory_slot_ok)

lemma run_slot_ok:
  "run s xs = Inr (rs, s') \<Longrightarrow> list_all slot_ok (queues s) \<Longrightarrow> list_all slot_ok (queues s')"
proof (induction xs arbitrary: s rs)
  case Nil
  then show ?case by simp
next
  case (Cons x xs)
  from Cons.prems(1) obtain r s1 rs1 where
    st: "step s x = Inr (r, s1)" and rn: "run s1 xs = Inr (rs1, s')"
    by (auto split: sum.splits)
  from Cons.IH [OF rn step_slot_ok [OF st Cons.prems(2)]] show ?case .
qed

lemma initial_pool_slot_ok: "list_all slot_ok (queues initial_pool)"
  by (simp add: initial_pool_def list_all_iff slot_ok_def unused_queue_def)


lemma least_multiple:
  fixes a m n :: nat
  assumes "32 dvd a" "32 dvd m" "n \<le> m" "a < n + 32"
  shows "a \<le> m"
proof (rule ccontr)
  assume "\<not> a \<le> m"
  then have "m < a" by simp
  moreover have "32 dvd a - m" using assms(1,2) by (rule dvd_diff_nat)
  ultimately have "32 \<le> a - m" by (simp add: dvd_imp_le)
  then show False using assms(3,4) by simp
qed

text \<open>
  Claim C7. After any sequence of calls that ends without an error, every active queue has a
  capacity that is a multiple of the growth unit, at least its size and at most one growth unit
  above it. So the capacity is the smallest multiple of the growth unit that holds the size,
  except when the size is exactly one growth unit below the capacity.
\<close>

theorem growth_shrink_bracketing:
  assumes "run initial_pool ops = Inr (rs, s)"
    and "h < length (queues s)" and "bIs_Active (queues s ! h)"
  shows "unat DEFAULT_ALLOC_SIZE dvd unat (AllocatedSize (queues s ! h)) \<and>
         unat (Size (queues s ! h)) \<le> unat (AllocatedSize (queues s ! h)) \<and>
         unat (AllocatedSize (queues s ! h))
           \<le> unat (Size (queues s ! h)) + unat DEFAULT_ALLOC_SIZE \<and>
         ((\<forall>m. unat DEFAULT_ALLOC_SIZE dvd m \<and> unat (Size (queues s ! h)) \<le> m
               \<longrightarrow> unat (AllocatedSize (queues s ! h)) \<le> m) \<or>
          unat (AllocatedSize (queues s ! h))
            = unat (Size (queues s ! h)) + unat DEFAULT_ALLOC_SIZE)"
proof -
  let ?a = "unat (AllocatedSize (queues s ! h))"
  let ?n = "unat (Size (queues s ! h))"
  have "list_all slot_ok (queues s)"
    using run_slot_ok [OF assms(1) initial_pool_slot_ok] .
  then have "slot_ok (queues s ! h)"
    using assms(2) by (simp add: list_all_length)
  then have "bracket (AllocatedSize (queues s ! h)) (Size (queues s ! h))"
    using assms(3) by (simp add: slot_ok_def bracketed_def)
  then have b: "32 dvd ?a" "?n \<le> ?a" "?a \<le> ?n + 32"
    by (simp_all add: bracket_def DEFAULT_ALLOC_SIZE_def)
  have "(\<forall>m. 32 dvd m \<and> ?n \<le> m \<longrightarrow> ?a \<le> m) \<or> ?a = ?n + 32"
  proof (cases "?a = ?n + 32")
    case True
    then show ?thesis by simp
  next
    case False
    then have "?a < ?n + 32" using b(3) by simp
    then show ?thesis using least_multiple [OF b(1)] by blast
  qed
  then show ?thesis
    using b by (simp add: DEFAULT_ALLOC_SIZE_def)
qed

text \<open>
  Scenario B of the specification: one queue and 33 bytes; the run ends without an error with
  size 33 and capacity 64.
\<close>

theorem growth_shrink_bracketing_witness:
  "\<exists>rs s. run initial_pool (Create # replicate 33 (Enqueue 0 7)) = Inr (rs, s) \<and>
     bIs_Active (queues s ! 0) \<and>
     Size (queues s ! 0) = 33 \<and> AllocatedSize (queues s ! 0) = 64 \<and>
     unat DEFAULT_ALLOC_SIZE dvd unat (AllocatedSize (queues s ! 0)) \<and>
     unat (Size (queues s ! 0)) \<le> unat (AllocatedSize (queues s ! 0)) \<and>
     unat (AllocatedSize (queues s ! 0)) \<le> unat (Size (queues s ! 0)) + unat DEFAULT_ALLOC_SIZE"
proof -
  let ?ops = "Create # replicate 33 (Enqueue 0 7)"
  have ev: "(case run initial_pool ?ops of
              Inl e \<Rightarrow> False
            | Inr (rs, s) \<Rightarrow> 0 < length (queues s) \<and> bIs_Active (queues s ! 0) \<and>
                Size (queues s ! 0) = 33 \<and> AllocatedSize (queues s ! 0) = 64)"
    by code_simp
  show ?thesis
  proof (cases "run initial_pool ?ops")
    case (Inl e)
    with ev show ?thesis by simp
  next
    case (Inr r)
    obtain rs s where r: "r = (rs, s)" by (cases r)
    have f: "0 < length (queues s)" "bIs_Active (queues s ! 0)"
           "Size (queues s ! 0) = 33" "AllocatedSize (queues s ! 0) = 64"
      using ev unfolding Inr r by simp_all
    have run: "run initial_pool ?ops = Inr (rs, s)"
      using Inr r by simp
    have "unat DEFAULT_ALLOC_SIZE dvd unat (AllocatedSize (queues s ! 0)) \<and>
     unat (Size (queues s ! 0)) \<le> unat (AllocatedSize (queues s ! 0)) \<and>
     unat (AllocatedSize (queues s ! 0)) \<le> unat (Size (queues s ! 0)) + unat DEFAULT_ALLOC_SIZE"
      using growth_shrink_bracketing [OF run f(1) f(2)] by blast
    with run f show ?thesis by blast
  qed
qed


subsection \<open>What compaction does to the table\<close>

lemma ptr_less_key: "ptr_less (MemoryBlockPtr x) (MemoryBlockPtr y) \<longleftrightarrow> ptr_key x < ptr_key y"
  by (cases "MemoryBlockPtr x"; cases "MemoryBlockPtr y") (simp_all add: ptr_key_def)

lemma queue_before_key:
  "queue_before x y \<longleftrightarrow>
     (bIs_Active x \<and> \<not> bIs_Active y) \<or> (bIs_Active x = bIs_Active y \<and> ptr_key x < ptr_key y)"
  by (auto simp: queue_before_def ptr_less_key)

lemma mset_insert_queue [simp]: "mset (insert_queue q xs) = add_mset q (mset xs)"
  by (induction xs) simp_all

lemma mset_reorganize [simp]: "mset (reorganize_byte_queues xs) = mset xs"
  by (induction xs) (simp_all add: reorganize_byte_queues_def)

lemma set_insert_queue [simp]: "set (insert_queue q xs) = insert q (set xs)"
  by (induction xs) auto

lemma sorted_insert_queue:
  "sorted_wrt (\<lambda>x y. \<not> queue_before y x) xs \<Longrightarrow>
     sorted_wrt (\<lambda>x y. \<not> queue_before y x) (insert_queue q xs)"
proof (induction xs)
  case Nil
  then show ?case by simp
next
  case (Cons x xs)
  show ?case
  proof (cases "queue_before x q")
    case True
    then have "\<not> queue_before q x" by (auto simp: queue_before_key)
    with Cons True show ?thesis by auto
  next
    case False
    have "\<not> queue_before z q" if "z \<in> set xs" for z
    proof -
      have "\<not> queue_before z x" using Cons.prems that by simp
      with False show ?thesis by (auto simp: queue_before_key)
    qed
    with Cons.prems False show ?thesis by auto
  qed
qed

lemma sorted_reorganize:
  "sorted_wrt (\<lambda>x y. \<not> queue_before y x) (reorganize_byte_queues xs)"
  by (induction xs) (simp_all add: reorganize_byte_queues_def sorted_insert_queue)

lemma sorted_active_keys:
  "sorted (map ptr_key (filter bIs_Active (reorganize_byte_queues xs)))"
proof -
  have "sorted_wrt (\<lambda>x y. \<not> queue_before y x) (filter bIs_Active (reorganize_byte_queues xs))"
    by (rule sorted_wrt_filter) (rule sorted_reorganize)
  then have "sorted_wrt (\<lambda>x y. ptr_key x \<le> ptr_key y)
               (filter bIs_Active (reorganize_byte_queues xs))"
    by (rule sorted_wrt_mono_rel [rotated]) (auto simp: queue_before_key)
  then show ?thesis by (simp add: sorted_map)
qed


lemma find_queue_finds:
  "t \<in> set qs \<Longrightarrow> find_queue qs t < length qs \<and> qs ! find_queue qs t = t"
  by (induction qs) auto

lemma set_queue_ptr_mset:
  assumes "t \<in># mset qs"
  shows "\<exists>qs'. set_queue_ptr qs (find_queue qs t) p = Inr qs' \<and>
           mset qs' = add_mset (t\<lparr>MemoryBlockPtr := p\<rparr>) (mset qs - {#t#})"
proof -
  have "t \<in> set qs" using assms by simp
  then have "find_queue qs t < length qs" "qs ! find_queue qs t = t"
    using find_queue_finds by blast+
  then show ?thesis
    by (simp add: set_queue_ptr_def mset_update)
qed

lemma pack_filter: "filter bIs_Active (pack e xs) = pack e (filter bIs_Active xs)"
  by (induction xs arbitrary: e) simp_all

lemma pack_pack: "pack e (pack e xs) = pack e xs"
  by (induction xs arbitrary: e) simp_all

lemma pack_length [simp]: "length (pack e xs) = length xs"
  by (induction xs arbitrary: e) simp_all

lemma ptr_key_update [simp]: "ptr_key (q\<lparr>MemoryBlockPtr := Some e\<rparr>) = Suc e"
  by (simp add: ptr_key_def)

lemma pack_keys_fixed:
  "map ptr_key (filter bIs_Active (pack e xs)) = map ptr_key (filter bIs_Active xs) \<Longrightarrow>
     pack e xs = xs"
proof (induction xs arbitrary: e)
  case Nil
  then show ?case by simp
next
  case (Cons q qs)
  show ?case
  proof (cases "bIs_Active q")
    case False
    with Cons show ?thesis by simp
  next
    case True
    with Cons.prems have k: "ptr_key q = Suc e"
      and r: "map ptr_key (filter bIs_Active (pack (e + unat (AllocatedSize q)) qs))
                = map ptr_key (filter bIs_Active qs)"
      by simp_all
    from k have "MemoryBlockPtr q = Some e"
      by (simp add: ptr_key_def split: option.splits)
    then have "q\<lparr>MemoryBlockPtr := Some e\<rparr> = q" by simp
    with True Cons.IH [OF r] show ?thesis by simp
  qed
qed

lemma pack_actives_fixed:
  "pack e (filter bIs_Active xs) = filter bIs_Active xs \<Longrightarrow> pack e xs = xs"
  by (rule pack_keys_fixed) (simp add: pack_filter)

lemma sorted_pack_keys_from:
  "sorted (map ptr_key (filter bIs_Active (pack e xs))) \<and>
   (\<forall>k \<in> set (map ptr_key (filter bIs_Active (pack e xs))). Suc e \<le> k)"
proof (induction xs arbitrary: e)
  case Nil
  then show ?case by simp
next
  case (Cons q qs)
  show ?case
  proof (cases "bIs_Active q")
    case False
    with Cons show ?thesis by simp
  next
    case True
    have "\<forall>k \<in> set (map ptr_key (filter bIs_Active (pack (e + unat (AllocatedSize q)) qs))).
            Suc e \<le> k"
      using Cons [of "e + unat (AllocatedSize q)"] by fastforce
    with True Cons [of "e + unat (AllocatedSize q)"] show ?thesis
      by simp
  qed
qed

lemma sorted_pack_keys: "sorted (map ptr_key (filter bIs_Active (pack e xs)))"
  using sorted_pack_keys_from by blast

lemma sorted_same_mset:
  fixes xs ys :: "nat list"
  assumes "sorted xs" and "sorted ys" and "mset xs = mset ys"
  shows "xs = ys"
  using properties_for_sort [OF assms(3) assms(1)] properties_for_sort [OF refl assms(2)]
  by simp


lemma organize_loop_flag:
  "organize_loop prev rest flag s = Inr (b, s') \<Longrightarrow> flag \<Longrightarrow> b"
proof (induction rest arbitrary: prev flag s)
  case Nil
  then show ?case by simp
next
  case (Cons nxt rest)
  from Cons.prems show ?case
    by (auto split: if_splits sum.splits dest: Cons.IH)
qed

lemma organize_loop_unchanged:
  "organize_loop prev rest flag s = Inr (False, s') \<Longrightarrow> s' = s"
proof (induction rest arbitrary: prev flag s)
  case Nil
  then show ?case by simp
next
  case (Cons nxt rest)
  from Cons.prems show ?case
    by (auto split: if_splits sum.splits dest: Cons.IH organize_loop_flag)
qed

lemma organize_loop_packed:
  "MemoryBlockPtr prev = Some pe \<Longrightarrow> pack (pe + unat (AllocatedSize prev)) rest = rest \<Longrightarrow>
     organize_loop prev rest flag s = Inr (flag, s)"
proof (induction rest arbitrary: prev pe)
  case Nil
  then show ?case by simp
next
  case (Cons nxt rest)
  show ?case
  proof (cases "bIs_Active nxt")
    case False
    with Cons show ?thesis by simp
  next
    case True
    with Cons.prems(2) have p: "nxt\<lparr>MemoryBlockPtr := Some (pe + unat (AllocatedSize prev))\<rparr> = nxt"
      and r: "pack (pe + unat (AllocatedSize prev) + unat (AllocatedSize nxt)) rest = rest"
      by simp_all
    from p have n: "MemoryBlockPtr nxt = Some (pe + unat (AllocatedSize prev))"
      by (metis byte_queue.select_convs(1) byte_queue.surjective byte_queue.update_convs(1))
    from Cons.IH [OF n r] True n Cons.prems(1) show ?thesis
      by (simp add: block_end_def)
  qed
qed

lemma organize_loop_track:
  assumes "organize_loop prev rest flag s = Inr (b, s')"
    and "MemoryBlockPtr prev = Some pe"
    and "mset (queues s) = mset rest + M"
  shows "mset (queues s') = mset (pack (pe + unat (AllocatedSize prev)) rest) + M \<and>
         (b \<longleftrightarrow> flag \<or> pack (pe + unat (AllocatedSize prev)) rest \<noteq> rest)"
  using assms
proof (induction rest arbitrary: prev pe flag s M)
  case Nil
  then show ?case by simp
next
  case (Cons nxt rest)
  let ?start = "pe + unat (AllocatedSize prev)"
  have be: "block_end prev = Inr ?start"
    using Cons.prems(2) by (simp add: block_end_def)
  show ?case
  proof (cases "bIs_Active nxt")
    case False
    then have l: "organize_loop prev rest flag s = Inr (b, s')"
      using Cons.prems(1) by simp
    have m: "mset (queues s) = mset rest + add_mset nxt M"
      using Cons.prems(3) by simp
    from Cons.IH [OF l Cons.prems(2) m] False show ?thesis by simp
  next
    case True
    note act = this
    show ?thesis
    proof (cases "Some ?start = MemoryBlockPtr nxt")
      case True
      then have same: "nxt\<lparr>MemoryBlockPtr := Some ?start\<rparr> = nxt" by simp
      have l: "organize_loop nxt rest flag s = Inr (b, s')"
        using Cons.prems(1) act be True by simp
      have m: "mset (queues s) = mset rest + add_mset nxt M"
        using Cons.prems(3) by simp
      from Cons.IH [OF l True [symmetric] m] act same show ?thesis by simp
    next
      case False
      let ?n = "nxt\<lparr>MemoryBlockPtr := Some ?start\<rparr>"
      have "nxt \<in># mset (queues s)"
        using Cons.prems(3) by simp
      from set_queue_ptr_mset [OF this, of "Some ?start"] obtain qs where
        qs: "set_queue_ptr (queues s) (find_queue (queues s) nxt) (Some ?start) = Inr qs"
        and mq: "mset qs = add_mset ?n (mset (queues s) - {#nxt#})"
        by blast
      from Cons.prems(1) act be False qs obtain d where
        l: "organize_loop ?n rest True (s\<lparr>queues := qs, data := d\<rparr>) = Inr (b, s')"
        by (auto split: sum.splits)
      have m: "mset (queues (s\<lparr>queues := qs, data := d\<rparr>)) = mset rest + add_mset ?n M"
        using mq Cons.prems(3) by simp
      have p: "MemoryBlockPtr ?n = Some ?start" by simp
      have ne: "?n \<noteq> nxt"
        using False by (metis p)
      from Cons.IH [OF l p m] act ne show ?thesis by simp
    qed
  qed
qed

lemma try_organize_memory_unchanged:
  "try_organize_memory s = Inr (False, s') \<Longrightarrow> s' = s"
  by (auto simp: try_organize_memory_def split: list.splits if_splits sum.splits
           dest: organize_loop_unchanged organize_loop_flag)

lemma try_organize_memory_packed:
  assumes "reorganize_byte_queues (queues s) = p # rest" and "pack 0 (p # rest) = p # rest"
  shows "try_organize_memory s = Inr (False, s)"
proof (cases "bIs_Active p")
  case False
  then show ?thesis using assms(1) by (simp add: try_organize_memory_def)
next
  case True
  with assms(2) have "p\<lparr>MemoryBlockPtr := Some 0\<rparr> = p"
    and r: "pack (0 + unat (AllocatedSize p)) rest = rest"
    by simp_all
  then have z: "MemoryBlockPtr p = Some 0"
    by (metis byte_queue.select_convs(1) byte_queue.surjective byte_queue.update_convs(1))
  from organize_loop_packed [OF z r] True z assms(1) show ?thesis
    by (simp add: try_organize_memory_def)
qed

lemma try_organize_memory_track:
  assumes "try_organize_memory s = Inr (b, s')"
    and "reorganize_byte_queues (queues s) = p # rest" and "bIs_Active p"
  shows "mset (queues s') = mset (pack 0 (p # rest)) \<and> (b \<longleftrightarrow> pack 0 (p # rest) \<noteq> p # rest)"
proof -
  have mq: "mset (queues s) = add_mset p (mset rest)"
    using mset_reorganize [of "queues s"] assms(2) by simp
  show ?thesis
  proof (cases "MemoryBlockPtr p = Some 0")
    case True
    then have same: "p\<lparr>MemoryBlockPtr := Some 0\<rparr> = p" by simp
    have l: "organize_loop p rest False s = Inr (b, s')"
      using assms True by (simp add: try_organize_memory_def)
    have m: "mset (queues s) = mset rest + {#p#}" using mq by simp
    from organize_loop_track [OF l True m] assms(3) same show ?thesis by simp
  next
    case False
    let ?n = "p\<lparr>MemoryBlockPtr := Some 0\<rparr>"
    have "p \<in># mset (queues s)" using mq by simp
    from set_queue_ptr_mset [OF this, of "Some 0"] obtain qs where
      qs: "set_queue_ptr (queues s) (find_queue (queues s) p) (Some 0) = Inr qs"
      and mqs: "mset qs = add_mset ?n (mset (queues s) - {#p#})"
      by blast
    from assms False qs obtain d where
      l: "organize_loop ?n rest True (s\<lparr>queues := qs, data := d\<rparr>) = Inr (b, s')"
      by (auto simp: try_organize_memory_def split: sum.splits)
    have m: "mset (queues (s\<lparr>queues := qs, data := d\<rparr>)) = mset rest + {#?n#}"
      using mqs mq by simp
    have z: "MemoryBlockPtr ?n = Some 0" by simp
    have ne: "?n \<noteq> p" using False by (metis z)
    from organize_loop_track [OF l z m] assms(3) ne show ?thesis by simp
  qed
qed


lemma sorted_keys_unique:
  fixes k :: "'a \<Rightarrow> nat"
  assumes "sorted (map k xs)" and "sorted (map k ys)" and "mset xs = mset ys"
    and "distinct (map k xs)"
  shows "xs = ys"
proof -
  have "mset (map k xs) = mset (map k ys)"
    using assms(3) by simp
  then have keys: "map k xs = map k ys"
    using assms(1,2) by (intro sorted_same_mset)
  have "set ys = set xs"
    using assms(3) by (metis mset_eq_setD)
  moreover have "inj_on k (set xs)"
    using assms(4) by (simp add: distinct_map)
  ultimately have "inj_on k (set xs \<union> set ys)" by simp
  with keys show ?thesis by (rule map_inj_on)
qed

lemma sorted_wrt_active_keys:
  assumes "sorted_wrt (\<lambda>x y. \<not> queue_before y x) ys"
  shows "sorted (map ptr_key (filter bIs_Active ys))"
proof -
  have "sorted_wrt (\<lambda>x y. \<not> queue_before y x) (filter bIs_Active ys)"
    using assms by (rule sorted_wrt_filter)
  then have "sorted_wrt (\<lambda>x y. ptr_key x \<le> ptr_key y) (filter bIs_Active ys)"
    by (rule sorted_wrt_mono_rel [rotated]) (auto simp: queue_before_key)
  then show ?thesis by (simp add: sorted_map)
qed

lemma distinct_ptr_keys:
  "distinct (map MemoryBlockPtr xs) \<Longrightarrow> distinct (map ptr_key xs)"
proof -
  assume "distinct (map MemoryBlockPtr xs)"
  then have d: "distinct xs" and i: "inj_on MemoryBlockPtr (set xs)"
    by (simp_all add: distinct_map)
  have "inj_on ptr_key (set xs)"
  proof (rule inj_onI)
    fix x y assume "x \<in> set xs" "y \<in> set xs" "ptr_key x = ptr_key y"
    then have "MemoryBlockPtr x = MemoryBlockPtr y"
      by (auto simp: ptr_key_def split: option.splits)
    with i \<open>x \<in> set xs\<close> \<open>y \<in> set xs\<close> show "x = y" by (auto dest: inj_onD)
  qed
  with d show ?thesis by (simp add: distinct_map)
qed

lemma distinct_active_ptrs_mset:
  assumes "mset ys = mset xs" and "distinct (map MemoryBlockPtr (filter bIs_Active xs))"
  shows "distinct (map MemoryBlockPtr (filter bIs_Active ys))"
proof -
  have "mset (map MemoryBlockPtr (filter bIs_Active ys))
          = mset (map MemoryBlockPtr (filter bIs_Active xs))"
    using assms(1) by simp
  then show ?thesis
    using assms(2) by (metis mset_eq_imp_distinct_iff)
qed

text \<open>
  Any sorted permutation of a table whose active descriptors have different addresses lists
  these descriptors in the order of the model's sort.
\<close>

lemma any_sort_same_actives:
  assumes "mset ys = mset xs" and "sorted_wrt (\<lambda>x y. \<not> queue_before y x) ys"
    and "distinct (map MemoryBlockPtr (filter bIs_Active xs))"
  shows "filter bIs_Active ys = filter bIs_Active (reorganize_byte_queues xs)"
proof (rule sorted_keys_unique [where k = ptr_key])
  show "sorted (map ptr_key (filter bIs_Active ys))"
    using assms(2) by (rule sorted_wrt_active_keys)
  show "sorted (map ptr_key (filter bIs_Active (reorganize_byte_queues xs)))"
    by (rule sorted_active_keys)
  show "mset (filter bIs_Active ys) = mset (filter bIs_Active (reorganize_byte_queues xs))"
    using assms(1) by simp
  show "distinct (map ptr_key (filter bIs_Active ys))"
    using distinct_active_ptrs_mset [OF assms(1) assms(3)] by (rule distinct_ptr_keys)
qed

lemma try_organize_memory_changes:
  assumes "try_organize_memory s = Inr (True, s1)"
  shows "queues s1 \<noteq> queues s"
proof
  assume same: "queues s1 = queues s"
  let ?t = "reorganize_byte_queues (queues s)"
  from assms obtain p rest where t: "?t = p # rest" and act: "bIs_Active p"
    by (auto simp: try_organize_memory_def split: list.splits if_splits)
  from try_organize_memory_track [OF assms t act]
  have m: "mset (queues s1) = mset (pack 0 ?t)" and ne: "pack 0 ?t \<noteq> ?t"
    by (simp_all add: t)
  have "mset (pack 0 ?t) = mset ?t"
    using m same by simp
  then have "mset (map ptr_key (filter bIs_Active (pack 0 ?t)))
               = mset (map ptr_key (filter bIs_Active ?t))"
    by simp
  then have "map ptr_key (filter bIs_Active (pack 0 ?t)) = map ptr_key (filter bIs_Active ?t)"
    using sorted_pack_keys sorted_active_keys by (intro sorted_same_mset)
  then have "pack 0 ?t = ?t" by (rule pack_keys_fixed)
  with ne show False by simp
qed

lemma try_organize_memory_again:
  assumes "try_organize_memory s = Inr (b, s1)"
    and "distinct (map MemoryBlockPtr (filter bIs_Active (queues s1)))"
  shows "try_organize_memory s1 = Inr (False, s1)"
proof (cases b)
  case False
  then have "s1 = s" using assms(1) by (auto dest: try_organize_memory_unchanged)
  with assms(1) False show ?thesis by simp
next
  case True
  let ?t = "reorganize_byte_queues (queues s)"
  let ?t2 = "reorganize_byte_queues (queues s1)"
  from assms(1) True obtain p rest where t: "?t = p # rest" and act: "bIs_Active p"
    by (auto simp: try_organize_memory_def split: list.splits if_splits)
  from try_organize_memory_track [OF assms(1) t act]
  have m: "mset (queues s1) = mset (pack 0 ?t)"
    by (simp add: t)
  have eq: "filter bIs_Active ?t2 = filter bIs_Active (pack 0 ?t)"
  proof (rule sorted_keys_unique [where k = ptr_key])
    show "sorted (map ptr_key (filter bIs_Active ?t2))" by (rule sorted_active_keys)
    show "sorted (map ptr_key (filter bIs_Active (pack 0 ?t)))" by (rule sorted_pack_keys)
    show "mset (filter bIs_Active ?t2) = mset (filter bIs_Active (pack 0 ?t))"
      using m by simp
    have "mset ?t2 = mset (queues s1)" by simp
    from distinct_active_ptrs_mset [OF this assms(2)]
    show "distinct (map ptr_key (filter bIs_Active ?t2))" by (rule distinct_ptr_keys)
  qed
  have "pack 0 (filter bIs_Active ?t2) = filter bIs_Active ?t2"
    unfolding eq by (simp add: pack_filter pack_pack)
  then have fixed: "pack 0 ?t2 = ?t2" by (rule pack_actives_fixed)
  have "mset ?t2 \<noteq> {#}"
    using m t by simp
  then obtain p2 rest2 where t2: "?t2 = p2 # rest2"
    by (cases ?t2) simp_all
  show ?thesis
    using t2 fixed by (intro try_organize_memory_packed) simp_all
qed

text \<open>
  Claim C8, as amended. \<open>try_organize_memory\<close> returns true exactly when it changed the address
  of a descriptor, and a call that returns false leaves the pool as it was. A call right after
  another one returns false when no two active descriptors have the same address after the
  first call; that is so when every active queue has a capacity above 0.
\<close>

theorem compaction_settles:
  assumes "try_organize_memory s = Inr (b, s1)"
  shows "(b \<longleftrightarrow> queues s1 \<noteq> queues s) \<and> (\<not> b \<longrightarrow> s1 = s) \<and>
         (distinct (map MemoryBlockPtr (filter bIs_Active (queues s1)))
            \<longrightarrow> try_organize_memory s1 = Inr (False, s1))"
proof (intro conjI impI)
  show "b \<longleftrightarrow> queues s1 \<noteq> queues s"
  proof (cases b)
    case True
    with assms show ?thesis by (auto dest: try_organize_memory_changes)
  next
    case False
    with assms show ?thesis by (auto dest: try_organize_memory_unchanged)
  qed
  show "s1 = s" if "\<not> b"
    using that assms by (auto dest: try_organize_memory_unchanged)
  show "try_organize_memory s1 = Inr (False, s1)"
    if "distinct (map MemoryBlockPtr (filter bIs_Active (queues s1)))"
    using assms that by (rule try_organize_memory_again)
qed

text \<open>
  Three queues, a byte in the third, the second destroyed: the first compaction moves the third
  queue, the second compaction returns false.
\<close>

theorem compaction_settles_witness:
  "\<exists>rs s s1.
     run initial_pool [Create, Create, Create, Enqueue 2 7, Destroy 1 False] = Inr (rs, s) \<and>
     try_organize_memory s = Inr (True, s1) \<and>
     distinct (map MemoryBlockPtr (filter bIs_Active (queues s1))) \<and>
     queues s1 \<noteq> queues s \<and>
     try_organize_memory s1 = Inr (False, s1)"
proof -
  let ?ops = "[Create, Create, Create, Enqueue 2 7, Destroy 1 False]"
  have ev: "(case run initial_pool ?ops of
               Inl e \<Rightarrow> False
             | Inr (rs, s) \<Rightarrow>
                 (case try_organize_memory s of
                    Inl e \<Rightarrow> False
                  | Inr (b, s1) \<Rightarrow>
                      b \<and> distinct (map MemoryBlockPtr (filter bIs_Active (queues s1)))))"
    by code_simp
  show ?thesis
  proof (cases "run initial_pool ?ops")
    case (Inl e)
    with ev show ?thesis by simp
  next
    case (Inr r)
    obtain rs s where r: "r = (rs, s)" by (cases r)
    show ?thesis
    proof (cases "try_organize_memory s")
      case (Inl e)
      with ev Inr r show ?thesis by simp
    next
      case o: (Inr c)
      obtain b s1 where c: "c = (b, s1)" by (cases c)
      have b: "b" and d: "distinct (map MemoryBlockPtr (filter bIs_Active (queues s1)))"
        using ev unfolding Inr r using o c by simp_all
      have t: "try_organize_memory s = Inr (True, s1)"
        using o c b by simp
      from compaction_settles [OF t] d
      have "queues s1 \<noteq> queues s" "try_organize_memory s1 = Inr (False, s1)"
        by simp_all
      with Inr r t d show ?thesis by blast
    qed
  qed
qed

text \<open>
  Claim C8, as stated, says that the second of two calls returns false in every state. A queue
  that was emptied by \<open>dequeue_byte\<close> has capacity 0, and compaction puts the next queue at
  the same address. In the run below the first of the two last compactions leaves descriptor 1
  (capacity 32) and descriptor 2 (capacity 0) both at offset 32. These two compare equivalent,
  so the comparison does not determine their order after \<open>std::sort\<close>; in table order, as the
  model sorts, the call that follows moves descriptor 2 behind descriptor 1, to offset 64, and
  returns true. Every earlier sort of the run has a determined result.
\<close>

theorem compaction_twice_counterexample:
  "map_sum id (\<lambda>(rs, s). (rs, map descriptor (take 3 (queues s))))
     (run initial_pool
        [Create, Create, Create, Destroy 1 False, Organize, Create, Enqueue 2 6, Dequeue 2,
         Organize])
   = Inr ([Handle 0, Handle 1, Handle 2, Done, Organized True, Handle 1, Done, Byte 6,
           Organized True],
          [(Some 0, 32, 0, True), (Some 32, 32, 0, True), (Some 32, 0, 0, True)])
   \<and>
   map_sum id (\<lambda>(rs, s). (rs, map descriptor (take 3 (queues s))))
     (run initial_pool
        [Create, Create, Create, Destroy 1 False, Organize, Create, Enqueue 2 6, Dequeue 2,
         Organize, Organize])
   = Inr ([Handle 0, Handle 1, Handle 2, Done, Organized True, Handle 1, Done, Byte 6,
           Organized True, Organized True],
          [(Some 0, 32, 0, True), (Some 32, 32, 0, True), (Some 64, 0, 0, True)])"
  by code_simp

subsection \<open>The pool after 64 creations\<close>

lemma reorganize_sorted:
  "sorted_wrt (\<lambda>x y. \<not> queue_before y x) xs \<Longrightarrow> reorganize_byte_queues xs = xs"
proof (induction xs)
  case Nil
  then show ?case by (simp add: reorganize_byte_queues_def)
next
  case (Cons x xs)
  then have "reorganize_byte_queues xs = xs" by simp
  then have "reorganize_byte_queues (x # xs) = insert_queue x xs"
    by (simp add: reorganize_byte_queues_def)
  also have "\<dots> = x # xs"
    using Cons.prems by (cases xs) simp_all
  finally show ?case .
qed

lemma block_at_simps [simp]:
  "MemoryBlockPtr (block_at i) = Some (32 * i)" "AllocatedSize (block_at i) = 32"
  "Size (block_at i) = 0" "bIs_Active (block_at i)"
  by (simp_all add: block_at_def)

lemma unused_queue_simps [simp]:
  "MemoryBlockPtr unused_queue = None" "AllocatedSize unused_queue = 0"
  "Size unused_queue = 0" "\<not> bIs_Active unused_queue"
  by (simp_all add: unused_queue_def)

lemma block_at_inj [simp]: "block_at i = block_at j \<longleftrightarrow> i = j"
  by (auto simp: block_at_def)

lemma sorted_wrt_replicate_refl: "R x x \<Longrightarrow> sorted_wrt R (replicate n x)"
  by (induction n) simp_all

lemma created_sorted:
  "sorted_wrt (\<lambda>x y. \<not> queue_before y x) (map block_at [i..<k] @ replicate m unused_queue)"
proof -
  have "sorted_wrt (\<lambda>a b. \<not> queue_before (block_at b) (block_at a)) [i..<k]"
    by (rule sorted_wrt_mono_rel [of _ "(<)"]) (simp_all add: queue_before_def)
  then show ?thesis
    by (auto simp: sorted_wrt_append sorted_wrt_map queue_before_def sorted_wrt_replicate_refl)
qed


lemma find_active_unused [simp]:
  "find bIs_Active (replicate m unused_queue @ xs) = find bIs_Active xs"
  by (induction m) simp_all

lemma next_queue_from_unused [simp]:
  "next_queue_from p True i (replicate m unused_queue) = None"
  by (induction m arbitrary: i) simp_all

lemma first_inactive_created:
  "0 < m \<Longrightarrow> a \<le> b \<Longrightarrow>
     first_inactive i (map block_at [a..<b] @ replicate m unused_queue) = Some (i + (b - a))"
proof (induction "b - a" arbitrary: a i)
  case 0
  then show ?case by (cases m) simp_all
next
  case (Suc n)
  then have "a < b" by simp
  then have "[a..<b] = a # [Suc a..<b]" by (rule upt_conv_Cons)
  moreover have "first_inactive (Suc i) (map block_at [Suc a..<b] @ replicate m unused_queue)
      = Some (Suc i + (b - Suc a))"
    using Suc by (intro Suc.hyps) simp_all
  ultimately show ?case using \<open>a < b\<close> by simp
qed

lemma find_queue_created:
  "a \<le> j \<Longrightarrow> j < b \<Longrightarrow> find_queue (map block_at [a..<b] @ ys) (block_at j) = j - a"
proof (induction "j - a" arbitrary: a)
  case 0
  then have "a = j" by simp
  then have "[a..<b] = j # [Suc j..<b]" using 0 by (simp add: upt_conv_Cons)
  then show ?case using \<open>a = j\<close> by simp
next
  case (Suc n)
  then have "a < j" "a < b" by simp_all
  then have "[a..<b] = a # [Suc a..<b]" by (simp add: upt_conv_Cons)
  moreover have "find_queue (map block_at [Suc a..<b] @ ys) (block_at j) = j - Suc a"
    using Suc by (intro Suc.hyps) simp_all
  ultimately show ?case using \<open>a < j\<close> by simp
qed

lemma gap_scan_created:
  "gap_scan (block_at i) (map block_at [Suc i..<k] @ replicate m unused_queue) 32 = Inr None"
proof (induction "k - Suc i" arbitrary: i)
  case 0
  then show ?case by (cases m) simp_all
next
  case (Suc n)
  then have "Suc i < k" by simp
  then have "[Suc i..<k] = Suc i # [Suc (Suc i)..<k]" by (rule upt_conv_Cons)
  moreover have
    "gap_scan (block_at (Suc i)) (map block_at [Suc (Suc i)..<k] @ replicate m unused_queue) 32
       = Inr None"
    using Suc by (intro Suc.hyps) simp
  ultimately show ?case by (simp add: block_end_def)
qed

lemma created_reorganized [simp]:
  "reorganize_byte_queues (map block_at [i..<k] @ replicate m unused_queue)
     = map block_at [i..<k] @ replicate m unused_queue"
  by (rule reorganize_sorted) (rule created_sorted)

lemma unused_reorganized [simp]:
  "reorganize_byte_queues (replicate m unused_queue) = replicate m unused_queue"
  using created_reorganized [of 0 0 m] by simp

lemma get_first_queue_unused [simp]: "get_first_queue (replicate m unused_queue) = None"
  using find_active_unused [of m "[]"] by (simp add: get_first_queue_def)

lemma get_first_queue_created:
  "0 < k \<Longrightarrow> get_first_queue (map block_at [0..<k] @ replicate m unused_queue)
     = Some (block_at 0)"
  unfolding get_first_queue_def created_reorganized by (simp add: upt_conv_Cons)

lemma get_next_queue_created:
  "0 < k \<Longrightarrow> get_next_queue (map block_at [0..<k] @ replicate m unused_queue) (block_at 0)
     = (if k = 1 then None else Some 1)"
proof -
  assume "0 < k"
  then have k: "[0..<k] = 0 # [1..<k]" by (simp add: upt_conv_Cons)
  show ?thesis
  proof (cases "k = 1")
    case True
    then show ?thesis using k by (simp add: get_next_queue_def)
  next
    case False
    then have "[Suc 0..<k] = Suc 0 # [Suc (Suc 0)..<k]"
      using \<open>0 < k\<close> by (simp add: upt_conv_Cons)
    then show ?thesis using k False by (simp add: get_next_queue_def)
  qed
qed

lemma get_last_queue_created:
  assumes "0 < k"
  shows "get_last_queue (map block_at [0..<k] @ replicate m unused_queue) = Some (k - 1)"
proof -
  obtain n where n: "k = Suc n" using assms by (cases k) simp_all
  have "find bIs_Active (rev (map block_at [0..<k] @ replicate m unused_queue))
          = Some (block_at n)"
    using n by (simp add: rev_map)
  moreover have "find_queue (map block_at [0..<k] @ replicate m unused_queue) (block_at n) = n"
    using find_queue_created [of 0 n k] n by simp
  ultimately show ?thesis
    unfolding get_last_queue_def created_reorganized using n by simp
qed

lemma tail_start_created:
  assumes "0 < k"
  shows "tail_start (map block_at [0..<k] @ replicate m unused_queue) = Inr (32 * k)"
proof -
  obtain n where n: "k = Suc n" using assms by (cases k) simp_all
  have "(map block_at [0..<k] @ replicate m unused_queue) ! n = block_at n"
    using n by (simp add: nth_append del: upt_Suc)
  then show ?thesis
    using get_last_queue_created [OF assms, of m] n
    by (simp add: tail_start_def queue_at_def block_end_def del: upt_Suc)
qed

lemma first_free_memory_created:
  assumes "k < 64"
  shows "first_free_memory (created k d) DEFAULT_ALLOC_SIZE = Inr (Some (32 * k), created k d)"
proof (cases "k = 0")
  case True
  then show ?thesis
    by (simp add: first_free_memory_def created_def)
next
  case False
  then have pos: "0 < k" by simp
  define t where "t = map block_at [0..<k] @ replicate (64 - k) unused_queue"
  have c: "created k d = \<lparr>queues = t, data = d\<rparr>"
    by (simp add: created_def t_def)
  have k: "[0..<k] = 0 # [Suc 0..<k]" using pos by (simp add: upt_conv_Cons)
  have "gap_scan (block_at 0) (tl (map block_at [0..<k] @ replicate (64 - k) unused_queue)) 32
          = Inr None"
    using gap_scan_created [of 0 k "64 - k"] by (simp add: k)
  then have scan: "gap_scan (block_at 0) (tl (reorganize_byte_queues t)) 32 = Inr None"
    unfolding t_def created_reorganized .
  have first: "get_first_queue t = Some (block_at 0)"
    unfolding t_def using pos by (rule get_first_queue_created)
  have nxt: "get_next_queue t (block_at 0) = (if k = 1 then None else Some 1)"
    unfolding t_def using pos by (rule get_next_queue_created)
  have tail: "tail_start t = Inr (32 * k)"
    unfolding t_def using pos by (rule tail_start_created)
  show ?thesis
    unfolding c first_free_memory_def
    using assms by (simp add: first nxt scan tail block_end_def DEFAULT_ALLOC_SIZE_def
                      MEMORY_ALLOC_SIZE_def)
qed

lemma nth_at_length: "length xs = k \<Longrightarrow> (xs @ y # ys) ! k = y"
  by auto

lemma update_at_length: "length xs = k \<Longrightarrow> (xs @ y # ys)[k := z] = xs @ z # ys"
  by auto

lemma create_queue_created:
  assumes "k < 64"
  shows "create_queue (created k d) = Inr (k, created (Suc k) d)"
proof -
  let ?t = "map block_at [0..<k] @ replicate (64 - k) unused_queue"
  have m: "64 - k = Suc (63 - k)" using assms by simp
  have fi: "first_inactive 0 ?t = Some k"
    using first_inactive_created [of "64 - k" 0 k 0] assms by simp
  have upd: "?t[k := block_at k] = map block_at [0..<Suc k] @ replicate (64 - Suc k) unused_queue"
    by (simp add: m list_update_append)
  have "add_byte_queue ?t (Some (32 * k)) DEFAULT_ALLOC_SIZE = Some (k, ?t[k := block_at k])"
    using fi by (simp add: add_byte_queue_def block_at_def DEFAULT_ALLOC_SIZE_def)
  then show ?thesis
    using first_free_memory_created [OF assms, of d] upd
    by (simp add: create_queue_def created_def block_at_def DEFAULT_ALLOC_SIZE_def
          nth_at_length update_at_length)
qed

lemma run_creates:
  "j + k \<le> 64 \<Longrightarrow>
     run (created j d) (replicate k Create) = Inr (map Handle [j..<j + k], created (j + k) d)"
proof (induction k arbitrary: j)
  case 0
  then show ?case by simp
next
  case (Suc k)
  then have "j < 64" "Suc j + k \<le> 64" by simp_all
  then show ?case
    using create_queue_created [of j d] Suc.IH [of "Suc j"]
    by (simp add: upt_conv_Cons)
qed

lemma initial_pool_created: "initial_pool = created 0 (\<lambda>i. 0)"
  by (simp add: initial_pool_def created_def MAX_QUEUE_COUNT_def)


lemma run_append:
  "run s (xs @ ys) =
     (case run s xs of
        Inl e \<Rightarrow> Inl e
      | Inr (rs, s1) \<Rightarrow>
          (case run s1 ys of Inl e \<Rightarrow> Inl e | Inr (rs2, s2) \<Rightarrow> Inr (rs @ rs2, s2)))"
  by (induction xs arbitrary: s) (auto split: sum.splits)

lemma enqueue_byte_in_place:
  assumes "h < length (queues s)" and "MemoryBlockPtr (queues s ! h) = Some p"
    and "unat (Size (queues s ! h)) < unat (AllocatedSize (queues s ! h))"
    and "p + unat (Size (queues s ! h)) < MEMORY_ALLOC_SIZE"
  shows "enqueue_byte s h b =
           Inr (s\<lparr>queues := (queues s)[h := (queues s ! h)\<lparr>Size := Size (queues s ! h) + 1\<rparr>],
                   data := (data s)(p + unat (Size (queues s ! h)) := b)\<rparr>)"
proof -
  let ?q = "queues s ! h"
  have "unat (Size ?q) + 1 < 2 ^ 32"
    using assms(3) unsigned_less [of "AllocatedSize ?q", where 'a = nat] by simp
  then have "unat (Size ?q + 1) = unat (Size ?q) + 1"
    by (simp add: unat_add_lem [THEN iffD1])
  then have "\<not> Size ?q + 1 > AllocatedSize ?q"
    using assms(3) by (simp add: word_less_nat_alt)
  then show ?thesis
    using assms by (simp add: enqueue_byte_def queue_at_def write_byte_def Let_def)
qed

lemma created_last_filled: "created 64 (\<lambda>i. 0) = last_filled 0"
proof -
  have "[0..<64] = [0..<63] @ [63]"
    using upt_Suc_append [of 0 63] by simp
  then show ?thesis
    by (simp add: created_def last_filled_def block_at_def fun_eq_iff)
qed

lemma enqueue_last_filled:
  assumes "n < 32"
  shows "enqueue_byte (last_filled n) 63 7 = Inr (last_filled (Suc n))"
proof -
  let ?s = "last_filled n"
  have u: "unat (word_of_nat n :: uint) = n"
    using assms by (simp add: unat_of_nat take_bit_nat_eq_self)
  have len: "63 < length (queues ?s)"
    by (simp add: last_filled_def)
  have q: "queues ?s ! 63 = \<lparr>MemoryBlockPtr = Some 2016, AllocatedSize = 32,
             Size = of_nat n, bIs_Active = True\<rparr>"
    by (simp add: last_filled_def nth_at_length)
  have "enqueue_byte ?s 63 7 =
          Inr (?s\<lparr>queues := (queues ?s)[63 := (queues ?s ! 63)\<lparr>Size := Size (queues ?s ! 63) + 1\<rparr>],
                  data := (data ?s)(2016 + unat (Size (queues ?s ! 63)) := 7)\<rparr>)"
  proof (rule enqueue_byte_in_place)
    show "63 < length (queues ?s)" by (rule len)
    show "MemoryBlockPtr (queues ?s ! 63) = Some 2016" by (simp add: q)
    show "unat (Size (queues ?s ! 63)) < unat (AllocatedSize (queues ?s ! 63))"
      unfolding q using assms u by simp
    show "2016 + unat (Size (queues ?s ! 63)) < MEMORY_ALLOC_SIZE"
      unfolding q using assms u by (simp add: MEMORY_ALLOC_SIZE_def)
  qed
  also have "\<dots> = Inr (last_filled (Suc n))"
    unfolding q by (simp add: last_filled_def update_at_length u fun_eq_iff)
  finally show ?thesis .
qed

lemma run_last_filled:
  "j + k \<le> 32 \<Longrightarrow>
     run (last_filled j) (replicate k (Enqueue 63 7)) = Inr (replicate k Done, last_filled (j + k))"
proof (induction k arbitrary: j)
  case 0
  then show ?case by simp
next
  case (Suc k)
  then have "j < 32" "Suc j + k \<le> 32" by simp_all
  then show ?case
    using enqueue_last_filled [of j] Suc.IH [of "Suc j"] by simp
qed


lemma no_successor_of_last:
  "get_next_queue
     (map block_at [0..<63] @
      [\<lparr>MemoryBlockPtr = Some 2016, AllocatedSize = 64, Size = 32, bIs_Active = True\<rparr>])
     \<lparr>MemoryBlockPtr = Some 2016, AllocatedSize = 64, Size = 32, bIs_Active = True\<rparr> = None"
  by code_simp

lemma grow_last_filled:
  "map_sum id (\<lambda>s. (descriptor (queues s ! 63), descriptor (queues s ! 0)))
     (enqueue_byte (last_filled 32) 63 7)
   = Inr ((Some 0, 64, 33, True), (Some 0, 32, 0, True))"
proof -
  have z: "[0..<63] = 0 # [Suc 0..<63]"
    by (simp add: upt_conv_Cons)
  show ?thesis
    using no_successor_of_last
    by (simp add: enqueue_byte_def grow_queue_def get_available_memory_start_def queue_at_def
          last_filled_def nth_at_length update_at_length relocate_bytes_def write_byte_def
          DEFAULT_ALLOC_SIZE_def MEMORY_ALLOC_SIZE_def descriptor_def Let_def nth_append z)
qed

lemma shift_left_error:
  "shift_left mem p is = Inl e \<longleftrightarrow>
     e = MemoryFault \<and> (\<exists>i\<in>set is. MEMORY_ALLOC_SIZE \<le> p + i + 1)"
  by (induction "is" arbitrary: mem) auto

lemma dequeue_byte_faults:
  assumes "h < length (queues s)" and "MemoryBlockPtr (queues s ! h) = Some p"
    and "Size (queues s ! h) \<noteq> 0"
  shows "map_sum id fst (dequeue_byte s h) = Inl MemoryFault \<longleftrightarrow>
           (\<exists>i\<in>set (dequeue_offsets (queues s ! h)). MEMORY_ALLOC_SIZE \<le> p + i)"
proof -
  let ?n = "unat (Size (queues s ! h))"
  have pos: "0 < ?n"
    using assms(3) by (simp add: unat_gt_0)
  have n1: "unat (Size (queues s ! h) - 1) = ?n - 1"
    using assms(3) by (simp add: unat_minus_one)
  have offs: "(\<exists>i\<in>set (dequeue_offsets (queues s ! h)). MEMORY_ALLOC_SIZE \<le> p + i)
                \<longleftrightarrow> MEMORY_ALLOC_SIZE \<le> p + ?n"
    using pos n1 by (auto simp: dequeue_offsets_def intro!: bexI [of _ "?n - 1"])
  have loop: "(\<exists>e. shift_left (data s) p [0..<?n] = Inl e) \<longleftrightarrow> MEMORY_ALLOC_SIZE \<le> p + ?n"
    using pos by (auto simp: shift_left_error intro!: bexI [of _ "?n - 1"])
  show ?thesis
  proof (cases "shift_left (data s) p [0..<?n]")
    case (Inl e)
    then have "e = MemoryFault" by (simp add: shift_left_error)
    then show ?thesis
      using assms Inl loop offs
      by (auto simp: dequeue_byte_def queue_at_def Let_def)
  next
    case (Inr d)
    then have "\<not> MEMORY_ALLOC_SIZE \<le> p + ?n" using loop by auto
    then show ?thesis
      using assms Inr offs n1 pos
      by (auto simp: dequeue_byte_def queue_at_def Let_def write_byte_def)
  qed
qed

subsection \<open>Runs of the program\<close>

text \<open>
  The runs of this subsection never sort a table in which two different descriptors compare
  equivalent: the active descriptors have different addresses at every sort, and the inactive
  ones are all equal. Every sorted permutation of such a table lists the active descriptors in
  the order of the model's sort (\<open>any_sort_same_actives\<close>).
\<close>

text \<open>
  Claim C1. The claim is that no two active blocks overlap after a run without an error. Two
  queues are created and the second one, the last of the table, receives 33 bytes. The 33rd byte
  makes it grow; \<open>get_next_queue\<close> finds no descriptor behind it and
  \<open>get_available_memory_start\<close> answers \<open>data\<close>. The second queue then has the block
  \<open>[0, 64)\<close> and the first one still has \<open>[0, 32)\<close>.
\<close>

theorem growth_without_successor_overlaps:
  "map_sum id (\<lambda>(rs, s). (map descriptor (take 2 (queues s)),
                           overlapping (queues s ! 0) (queues s ! 1)))
     (run initial_pool (Create # Create # replicate 33 (Enqueue 1 7)))
   = Inr ([(Some 0, 32, 0, True), (Some 0, 64, 33, True)], True)"
  by code_simp

text \<open>
  Claim C2. The claim is that a queue gives back the bytes it was given, in order. The first
  queue is given the byte 1 only. The second queue is given 33 times the byte 9 and is moved
  onto the first one by its growth. The first queue then gives back 9.
\<close>

theorem dequeue_returns_foreign_byte:
  "map_sum id (\<lambda>(rs, s). last rs)
     (run initial_pool (Create # Enqueue 0 1 # Create # replicate 33 (Enqueue 1 9) @ [Dequeue 0]))
   = Inr (Byte 9)"
  by code_simp

text \<open>
  Claim C3. The claim is that compaction keeps the content of every queue. Four queues are
  created; the third and then the second receive 33 bytes, so the second one grows in place to
  \<open>[32, 96)\<close>; the first queue is destroyed. Compaction moves the 33 bytes of the second queue
  from offset 32 to offset 0 and then clears the 33 bytes from offset 32 on, which ends one byte
  inside the moved content: the last byte of the queue is lost.
\<close>

theorem compaction_loses_a_byte:
  "map_sum id
     (\<lambda>(rs, s). (descriptor (queues s ! 1), queue_bytes s 1,
        map_sum id (\<lambda>(b, s'). (b, descriptor (queues s' ! 1), queue_bytes s' 1))
          (try_organize_memory s)))
     (run initial_pool
        (replicate 4 Create @ replicate 33 (Enqueue 2 5) @ replicate 33 (Enqueue 1 7) @
         [Destroy 0 False]))
   = Inr ((Some 32, 64, 33, True), replicate 33 7,
          Inr (True, (Some 0, 64, 33, True), replicate 32 7 @ [0]))"
  by code_simp

text \<open>
  Claim C5. The claim is that a queue with no active queue behind it grows in place. After two
  creations and 32 bytes in the second queue, the second queue is at offset 32 and no descriptor
  follows it; the placement for its growth to 64 bytes is \<open>data\<close>, offset 0.
\<close>

theorem growth_placement_without_successor:
  "map_sum id
     (\<lambda>(rs, s). (map descriptor (take 3 (queues s)), get_next_queue (queues s) (queues s ! 1),
        map_sum id fst (get_available_memory_start s 1 64)))
     (run initial_pool (Create # Create # replicate 32 (Enqueue 1 7)))
   = Inr ([(Some 0, 32, 0, True), (Some 32, 32, 32, True), (None, 0, 0, False)], None,
          Inr (Some 0))"
  by code_simp

text \<open>
  Claim C6. The claim is that the successor of a queue is the active queue at the next higher
  address. After \<open>Test_Reallocation\<close> of the source (two queues, the first one grown past 32
  bytes) the first descriptor is at offset 64 and the second at offset 32. The successor of the
  first descriptor is the second one, which lies at a lower address; the second one has no
  successor, although the first lies at a higher address. \<open>get_first_queue\<close> and
  \<open>get_last_queue\<close> follow the addresses.
\<close>

theorem next_queue_is_in_table_order:
  "map_sum id
     (\<lambda>(rs, s). (map descriptor (take 3 (queues s)),
        get_next_queue (queues s) (queues s ! 0), get_next_queue (queues s) (queues s ! 1),
        map_option descriptor (get_first_queue (queues s)), get_last_queue (queues s)))
     (run initial_pool (Create # Create # replicate 33 (Enqueue 0 7)))
   = Inr ([(Some 64, 64, 33, True), (Some 32, 32, 0, True), (None, 0, 0, False)],
          Some 1, None, Some (Some 32, 32, 0, True), Some 0)"
  by code_simp

text \<open>
  Claim C9. The claim is that compaction clears the bytes a moved queue leaves behind. Three
  queues are created, the third holds the byte 7 at offset 64, the second is destroyed.
  Compaction moves the third queue to offset 32. Offset 64 is then outside every active block
  and still holds 7.
\<close>

theorem compaction_leaves_old_bytes:
  "map_sum id (\<lambda>(rs, s). (last rs, map descriptor (take 4 (queues s)), data s 64))
     (run initial_pool [Create, Create, Create, Enqueue 2 7, Destroy 1 False, Organize])
   = Inr (Organized True,
          [(Some 0, 32, 0, True), (None, 0, 0, False), (Some 32, 32, 1, True), (None, 0, 0, False)],
          7)"
  by code_simp

text \<open>
  Claim C10. The claim is that \<open>dequeue_byte\<close> stays inside the block of the queue, also for a
  full queue at the end of the arena. After 64 creations the last queue has the block
  \<open>[2016, 2048)\<close>; with 32 bytes in it, the last round of the shifting loop reads the offset 32
  of the block, which is \<open>data[2048]\<close>, the first byte behind the arena.
\<close>

theorem dequeue_reads_past_the_arena:
  "map_sum id
     (\<lambda>(rs, s). (descriptor (queues s ! 63),
        filter (\<lambda>i. unat (AllocatedSize (queues s ! 63)) \<le> i) (dequeue_offsets (queues s ! 63)),
        map_sum id fst (dequeue_byte s 63)))
     (run initial_pool (replicate 64 Create @ replicate 32 (Enqueue 63 7)))
   = Inr ((Some 2016, 32, 32, True), [32], Inl MemoryFault)"
proof -
  have r: "run initial_pool (replicate 64 Create @ replicate 32 (Enqueue 63 7))
          = Inr (map Handle [0..<64] @ replicate 32 Done, last_filled 32)"
    using run_creates [of 0 64 "\<lambda>i. 0"] run_last_filled [of 0 32]
    by (simp add: run_append initial_pool_created created_last_filled)
  have q: "queues (last_filled 32) ! 63 =
             \<lparr>MemoryBlockPtr = Some 2016, AllocatedSize = 32, Size = 32, bIs_Active = True\<rparr>"
    by (simp add: last_filled_def nth_at_length)
  have o: "filter (\<lambda>i. 32 \<le> i)
             (dequeue_offsets \<lparr>MemoryBlockPtr = Some 2016, AllocatedSize = 32, Size = 32,
                               bIs_Active = True\<rparr>) = [32]"
    by code_simp
  have "32 \<in> set (filter (\<lambda>i. 32 \<le> i) (dequeue_offsets (queues (last_filled 32) ! 63)))"
    unfolding q o by simp
  then have "\<exists>i\<in>set (dequeue_offsets (queues (last_filled 32) ! 63)).
               MEMORY_ALLOC_SIZE \<le> 2016 + i"
    by (auto simp: MEMORY_ALLOC_SIZE_def)
  moreover have "map_sum id fst (dequeue_byte (last_filled 32) 63) = Inl MemoryFault \<longleftrightarrow>
      (\<exists>i\<in>set (dequeue_offsets (queues (last_filled 32) ! 63)). MEMORY_ALLOC_SIZE \<le> 2016 + i)"
  proof (rule dequeue_byte_faults)
    show "63 < length (queues (last_filled 32))" by (simp add: last_filled_def)
    show "MemoryBlockPtr (queues (last_filled 32) ! 63) = Some 2016" by (simp add: q)
    show "Size (queues (last_filled 32) ! 63) \<noteq> 0" by (simp add: q)
  qed
  ultimately have "map_sum id fst (dequeue_byte (last_filled 32) 63) = Inl MemoryFault"
    by simp
  then show ?thesis
    using r o by (simp add: descriptor_def q)
qed

text \<open>
  Claim C4. The claim is that \<open>enqueue_byte\<close> ends the program with the out-of-memory
  condition when there is no room for the grown capacity. After 64 creations and 32 bytes in
  the last queue every descriptor is active with 32 bytes and the arena is allocated to the last
  byte. One more byte for the last queue is accepted: the call returns, and the queue has the
  block \<open>[0, 64)\<close> on top of the first two queues.
\<close>

theorem enqueue_on_full_arena_returns:
  "map_sum id
     (\<lambda>(rs, s). (map (\<lambda>q. (bIs_Active q, AllocatedSize q)) (queues s) = replicate 64 (True, 32),
        map_sum id (\<lambda>s'. (descriptor (queues s' ! 63), descriptor (queues s' ! 0)))
          (enqueue_byte s 63 7)))
     (run initial_pool (replicate 64 Create @ replicate 32 (Enqueue 63 7)))
   = Inr (True, Inr ((Some 0, 64, 33, True), (Some 0, 32, 0, True)))"
proof -
  have "run initial_pool (replicate 64 Create @ replicate 32 (Enqueue 63 7))
          = Inr (map Handle [0..<64] @ replicate 32 Done, last_filled 32)"
    using run_creates [of 0 64 "\<lambda>i. 0"] run_last_filled [of 0 32]
    by (simp add: run_append initial_pool_created created_last_filled)
  moreover have "map (\<lambda>q. (bIs_Active q, AllocatedSize q)) (queues (last_filled 32))
                   = replicate 64 (True, 32)"
    by code_simp
  ultimately show ?thesis
    using grow_last_filled by simp
qed

end
